theory Spec2Isabelle
  imports Main "HOL-Library.Word"
begin

unbundle bit_operations_syntax

section \<open>Data model\<close>

text \<open>
  The decompression engine of tex3ds (\<^verbatim>\<open>source/tex3ds/buffer.c\<close>,
  \<^verbatim>\<open>include/tex3ds/buffer.h\<close>, \<^verbatim>\<open>source/tex3ds/decompress.c\<close>).

  \<^item> \<^verbatim>\<open>uint8_t\<close> is \<open>8 word\<close>, \<^verbatim>\<open>uint32_t\<close> is \<open>32 word\<close>.
  \<^item> \<^verbatim>\<open>size_t\<close> and \<^verbatim>\<open>unsigned int\<close> are \<open>nat\<close>, with the shifts and the bitwise or of
    HOL on \<open>nat\<close>; the target (ARM11) has a 32-bit \<^verbatim>\<open>size_t\<close>, and the one place where a
    \<^verbatim>\<open>size_t\<close> wraps around (the post-decrement loop of \<^verbatim>\<open>iov_memmove\<close>) is written out
    with \<open>SIZE_MAX\<close>.
  \<^item> A function that returns \<^verbatim>\<open>bool\<close> and changes memory returns the outcome together with
    the memory as it is left behind, also when it returns \<^verbatim>\<open>false\<close> or stops in a failed
    \<^verbatim>\<open>assert\<close>.
\<close>

type_synonym byte = "8 word"

definition SIZE_MAX :: nat where
  "SIZE_MAX = 4294967295"

text \<open>
  \<^verbatim>\<open>struct Tex3DS_Buffer\<close> (\<^verbatim>\<open>types.h\<close>). The field \<^verbatim>\<open>size\<close> is \<open>bsize\<close> and
  \<^verbatim>\<open>pos\<close> is \<open>bpos\<close> here (\<open>size\<close> is a constant of HOL, \<open>pos\<close> is also a field
  of the iterator). \<open>data\<close> is the storage the pointer refers to.
\<close>

record Tex3DS_Buffer =
  data :: "byte list"
  limit :: nat
  bsize :: nat
  bpos :: nat
  total :: nat

text \<open>
  \<^verbatim>\<open>Tex3DS_DataCallback\<close>: \<^verbatim>\<open>ssize_t callback(void *userdata, void *buffer, size_t size)\<close>.
  The model of a callback takes the user data and the size asked for and returns the
  return code, the bytes it stored at the start of \<^verbatim>\<open>buffer\<close>, and the user data after
  the call.
\<close>

type_synonym 'u Tex3DS_DataCallback = "'u \<Rightarrow> nat \<Rightarrow> int \<times> byte list \<times> 'u"

text \<open>The buffer object together with the user data of its callback.\<close>

type_synonym 'u input = "Tex3DS_Buffer \<times> 'u"

text \<open>\<^verbatim>\<open>memcpy(dest, src + off, n)\<close> out of a byte array: the bytes copied.\<close>

definition bytes_at :: "byte list \<Rightarrow> nat \<Rightarrow> nat \<Rightarrow> byte list" where
  "bytes_at src off n = take n (drop off src)"

text \<open>The callback stored \<open>wr\<close> at the start of the array \<open>old\<close>.\<close>

definition stored :: "byte list \<Rightarrow> byte list \<Rightarrow> byte list" where
  "stored wr old = wr @ drop (length wr) old"

section \<open>Streaming buffer (buffer.c, buffer.h)\<close>

text \<open>
  \<^verbatim>\<open>Tex3DS_BufferRead\<close>. The result is the return value, the bytes written to
  \<^verbatim>\<open>dest\<close> (a prefix of the request when the call fails), and the buffer and user
  data after the call. The function never touches \<^verbatim>\<open>buffer->total\<close>.
\<close>

function Tex3DS_BufferRead ::
  "'u Tex3DS_DataCallback \<Rightarrow> 'u input \<Rightarrow> nat \<Rightarrow> bool \<times> byte list \<times> 'u input" where
  "Tex3DS_BufferRead callback (buffer, userdata) sz =
     (if sz > 0 then
        if sz \<le> bsize buffer - bpos buffer then
          (True, bytes_at (data buffer) (bpos buffer) sz,
           (buffer\<lparr>bpos := bpos buffer + sz\<rparr>, userdata))
        else
          let part = (if bpos buffer \<noteq> bsize buffer
                      then bytes_at (data buffer) (bpos buffer) (bsize buffer - bpos buffer)
                      else []);
              sz' = (if bpos buffer \<noteq> bsize buffer
                     then sz - (bsize buffer - bpos buffer) else sz)
          in (case callback userdata (limit buffer) of
                (rc, wr, userdata') \<Rightarrow>
                  if rc \<le> 0 then
                    (False, part,
                     (buffer\<lparr>bsize := 0, bpos := 0, data := stored wr (data buffer)\<rparr>,
                      userdata'))
                  else
                    (case Tex3DS_BufferRead callback
                            (buffer\<lparr>bsize := nat rc, bpos := 0,
                                    data := stored wr (data buffer)\<rparr>, userdata') sz' of
                       (ok, rest, input') \<Rightarrow> (ok, part @ rest, input')))
      else (True, [], (buffer, userdata)))"
  by pat_completeness auto
termination
  by (relation "measure (\<lambda>(callback, (buffer, userdata), sz).
        2 * sz + (if bsize buffer - bpos buffer = 0 then 1 else 0))")
     (auto split: if_splits)

text \<open>
  \<^verbatim>\<open>Tex3DS_BufferGet\<close> (inline, \<^verbatim>\<open>buffer.h\<close>): \<open>Some b\<close> when it returns \<^verbatim>\<open>true\<close> with
  \<^verbatim>\<open>*dest = b\<close>, \<open>None\<close> when it returns \<^verbatim>\<open>false\<close> (then \<^verbatim>\<open>*dest\<close> is as it was:
  the read-ahead path is only taken with no resident byte, and fails before it stores one).
\<close>

definition Tex3DS_BufferGet ::
  "'u Tex3DS_DataCallback \<Rightarrow> 'u input \<Rightarrow> byte option \<times> 'u input" where
  "Tex3DS_BufferGet callback input =
     (case input of (buffer, userdata) \<Rightarrow>
        if bpos buffer < bsize buffer then
          (Some (data buffer ! bpos buffer),
           (buffer\<lparr>bpos := bpos buffer + 1, total := total buffer + 1\<rparr>, userdata))
        else
          (case Tex3DS_BufferRead callback input 1 of
             (ok, dest, input') \<Rightarrow> (if ok then Some (hd dest) else None, input')))"

text \<open>
  A pull source over a byte sequence held in memory, the way \<^verbatim>\<open>callback_fd\<close> and
  \<^verbatim>\<open>callback_stdio\<close> (\<^verbatim>\<open>tex3ds.c\<close>) pull from \<^verbatim>\<open>read\<close> and \<^verbatim>\<open>fread\<close>: the user data is
  the bytes not yet delivered and a plan of the coming return codes. A positive entry
  \<open>c\<close> of the plan is a partial fill of at most \<open>c\<close> bytes, an entry \<open>c \<le> 0\<close> is returned
  as it is (end of input or an I/O error) and delivers nothing; when the plan is used up
  every call fills as much as is asked for and left.
\<close>

type_synonym source = "byte list \<times> int list"

fun callback_mem :: "source Tex3DS_DataCallback" where
  "callback_mem (bytes, []) sz =
     (int (min sz (length bytes)), take (min sz (length bytes)) bytes,
      (drop (min sz (length bytes)) bytes, []))"
| "callback_mem (bytes, c # plan) sz =
     (if c \<le> 0 then (c, [], (bytes, plan))
      else (int (min (nat c) (min sz (length bytes))),
            take (min (nat c) (min sz (length bytes))) bytes,
            (drop (min (nat c) (min sz (length bytes))) bytes, plan)))"

section \<open>Scatter-gather cursor (decompress.c)\<close>

text \<open>
  \<^verbatim>\<open>Tex3DS_IOVec\<close>: a region is modelled by its bytes, its \<^verbatim>\<open>size\<close> is their number. The
  array \<^verbatim>\<open>iov\<close> of \<^verbatim>\<open>iovcnt\<close> regions is a list; the regions do not overlap in memory.
\<close>

type_synonym Tex3DS_IOVec = "byte list"

text \<open>
  What stops a run other than a return: a failed \<^verbatim>\<open>assert\<close>, or the evaluation of
  \<^verbatim>\<open>iov[num]\<close> (or of \<^verbatim>\<open>tree[node]\<close>) with an index outside the array, which is undefined
  in C.
\<close>

datatype fault = AssertionFailed | OutOfBounds

text \<open>How a call ends: it returns \<^verbatim>\<open>true\<close>, it returns \<^verbatim>\<open>false\<close>, or it stops.\<close>

datatype outcome = Success | Failure | Abort fault

text \<open>\<^verbatim>\<open>iov_iter\<close>; the pointer \<^verbatim>\<open>iov\<close> is the region list the functions are given.\<close>

record iov_iter =
  cnt :: nat
  num :: nat
  pos :: nat

definition iov_begin :: "Tex3DS_IOVec list \<Rightarrow> nat \<Rightarrow> iov_iter" where
  "iov_begin iov iovcnt = \<lparr>cnt = iovcnt, num = 0, pos = 0\<rparr>"

text \<open>\<^verbatim>\<open>iov_size\<close>; the assertion is that the sum does not exceed \<^verbatim>\<open>SIZE_MAX\<close>.\<close>

fun iov_size_from :: "Tex3DS_IOVec list \<Rightarrow> nat \<Rightarrow> fault + nat" where
  "iov_size_from [] sz = Inr sz"
| "iov_size_from (r # iov) sz =
     (if SIZE_MAX - sz \<ge> length r then iov_size_from iov (sz + length r)
      else Inl AssertionFailed)"

definition iov_size :: "Tex3DS_IOVec list \<Rightarrow> fault + nat" where
  "iov_size iov = iov_size_from iov 0"

text \<open>
  \<^verbatim>\<open>iov_addr\<close>: the address is the pair of the region number and the offset in it.
\<close>

definition iov_addr :: "Tex3DS_IOVec list \<Rightarrow> iov_iter \<Rightarrow> fault + nat \<times> nat" where
  "iov_addr iov it =
     (if \<not> num it < cnt it then Inl AssertionFailed
      else if \<not> num it < length iov then Inl OutOfBounds
      else if \<not> pos it < length (iov ! num it) then Inl AssertionFailed
      else Inr (num it, pos it))"

text \<open>A store of one byte, and of a block of bytes (\<^verbatim>\<open>memcpy\<close>, \<^verbatim>\<open>memset\<close>), at an address.\<close>

definition poke :: "Tex3DS_IOVec list \<Rightarrow> nat \<times> nat \<Rightarrow> byte \<Rightarrow> Tex3DS_IOVec list" where
  "poke iov a v = iov[fst a := (iov ! fst a)[snd a := v]]"

definition peek :: "Tex3DS_IOVec list \<Rightarrow> nat \<times> nat \<Rightarrow> byte" where
  "peek iov a = iov ! fst a ! snd a"

definition poke_bytes :: "Tex3DS_IOVec list \<Rightarrow> nat \<times> nat \<Rightarrow> byte list \<Rightarrow> Tex3DS_IOVec list" where
  "poke_bytes iov a bs =
     iov[fst a := take (snd a) (iov ! fst a) @ bs @ drop (snd a + length bs) (iov ! fst a)]"

text \<open>\<^verbatim>\<open>iov_increment\<close>.\<close>

definition iov_increment :: "Tex3DS_IOVec list \<Rightarrow> iov_iter \<Rightarrow> fault + iov_iter" where
  "iov_increment iov it =
     (if \<not> num it < cnt it then Inl AssertionFailed
      else if \<not> num it < length iov then Inl OutOfBounds
      else if \<not> pos it < length (iov ! num it) then Inl AssertionFailed
      else if pos it + 1 = length (iov ! num it) then Inr (it\<lparr>pos := 0, num := num it + 1\<rparr>)
      else Inr (it\<lparr>pos := pos it + 1\<rparr>))"

text \<open>
  \<^verbatim>\<open>iov_add\<close>: the loop is \<^verbatim>\<open>while(true)\<close>; every round evaluates \<^verbatim>\<open>it->iov[it->num].size\<close>,
  first in its second assertion.
\<close>

function iov_add :: "Tex3DS_IOVec list \<Rightarrow> iov_iter \<Rightarrow> nat \<Rightarrow> fault + iov_iter" where
  "iov_add iov it sz =
     (if \<not> num it \<le> cnt it then Inl AssertionFailed
      else if \<not> num it < length iov then Inl OutOfBounds
      else if \<not> length (iov ! num it) > pos it then Inl AssertionFailed
      else if length (iov ! num it) - pos it > sz then Inr (it\<lparr>pos := pos it + sz\<rparr>)
      else iov_add iov (it\<lparr>num := num it + 1, pos := 0\<rparr>)
             (sz - (length (iov ! num it) - pos it)))"
  by pat_completeness auto
termination
  by (relation "measure (\<lambda>(iov, it, sz). length iov - num it)") auto

text \<open>\<^verbatim>\<open>iov_sub\<close>.\<close>

function iov_sub :: "Tex3DS_IOVec list \<Rightarrow> iov_iter \<Rightarrow> nat \<Rightarrow> fault + iov_iter" where
  "iov_sub iov it sz =
     (if pos it \<ge> sz then Inr (it\<lparr>pos := pos it - sz\<rparr>)
      else if \<not> num it > 0 then Inl AssertionFailed
      else if \<not> num it - 1 < length iov then Inl OutOfBounds
      else iov_sub iov (it\<lparr>num := num it - 1, pos := length (iov ! (num it - 1))\<rparr>)
             (sz - pos it))"
  by pat_completeness auto
termination
  by (relation "measure (\<lambda>(iov, it, sz). num it)") auto

text \<open>
  \<^verbatim>\<open>iov_read\<close>. The two assertions at the top of the loop are those of \<^verbatim>\<open>iov_addr\<close>, which
  is evaluated as an argument before \<^verbatim>\<open>Tex3DS_BufferRead\<close> runs. The bytes the read delivers
  are in the region also when it fails half way.
\<close>

function iov_read ::
  "'u Tex3DS_DataCallback \<Rightarrow> 'u input \<Rightarrow> Tex3DS_IOVec list \<Rightarrow> iov_iter \<Rightarrow> nat
     \<Rightarrow> outcome \<times> iov_iter \<times> Tex3DS_IOVec list \<times> 'u input" where
  "iov_read callback input iov out sz =
     (if sz > 0 then
        (case iov_addr iov out of
           Inl f \<Rightarrow> (Abort f, out, iov, input)
         | Inr dest \<Rightarrow>
             let bytes = (if sz < length (iov ! num out) - pos out then sz
                          else length (iov ! num out) - pos out)
             in (case Tex3DS_BufferRead callback input bytes of
                   (ok, got, input') \<Rightarrow>
                     if \<not> ok then (Failure, out, poke_bytes iov dest got, input')
                     else (case iov_add (poke_bytes iov dest got) out bytes of
                             Inl f \<Rightarrow> (Abort f, out, poke_bytes iov dest got, input')
                           | Inr out' \<Rightarrow>
                               iov_read callback input' (poke_bytes iov dest got) out'
                                 (sz - bytes))))
      else (Success, out, iov, input))"
  by pat_completeness auto
termination
  by (relation "measure (\<lambda>(callback, input, iov, out, sz). sz)")
     (auto simp: iov_addr_def split: if_splits)

text \<open>
  The byte loop of \<^verbatim>\<open>iov_memmove\<close>, \<^verbatim>\<open>while(bytes-- > 0) *outbuf++ = *inbuf++;\<close>. It returns
  the memory and the value \<^verbatim>\<open>bytes\<close> is left with: the last test finds 0 and decrements it
  once more, which wraps the \<^verbatim>\<open>size_t\<close> around to \<^verbatim>\<open>SIZE_MAX\<close>.
\<close>

fun copy_loop ::
  "Tex3DS_IOVec list \<Rightarrow> nat \<times> nat \<Rightarrow> nat \<times> nat \<Rightarrow> nat \<Rightarrow> Tex3DS_IOVec list \<times> nat" where
  "copy_loop iov outbuf inbuf 0 = (iov, SIZE_MAX)"
| "copy_loop iov outbuf inbuf (Suc bytes) =
     copy_loop (poke iov outbuf (peek iov inbuf))
       (fst outbuf, snd outbuf + 1) (fst inbuf, snd inbuf + 1) bytes"

text \<open>
  \<^verbatim>\<open>iov_memmove\<close>. Both iterators are advanced after the byte loop, by the value the loop
  left in \<^verbatim>\<open>bytes\<close>. The result is the outcome, both iterators and the memory.
\<close>

function iov_memmove ::
  "Tex3DS_IOVec list \<Rightarrow> iov_iter \<Rightarrow> iov_iter \<Rightarrow> nat
     \<Rightarrow> outcome \<times> iov_iter \<times> iov_iter \<times> Tex3DS_IOVec list" where
  "iov_memmove iov out inp sz =
     (if sz > 0 then
        (case iov_addr iov out of
           Inl f \<Rightarrow> (Abort f, out, inp, iov)
         | Inr outbuf \<Rightarrow>
        (case iov_addr iov inp of
           Inl f \<Rightarrow> (Abort f, out, inp, iov)
         | Inr inbuf \<Rightarrow>
             let bytes = (if length (iov ! num out) - pos out < length (iov ! num inp) - pos inp
                          then length (iov ! num out) - pos out
                          else length (iov ! num inp) - pos inp);
                 bytes = (if sz < bytes then sz else bytes);
                 sz' = sz - bytes
             in (case copy_loop iov outbuf inbuf bytes of
                   (iov', bytes') \<Rightarrow>
                     (case iov_add iov' out bytes' of
                        Inl f \<Rightarrow> (Abort f, out, inp, iov')
                      | Inr out' \<Rightarrow>
                     (case iov_add iov' inp bytes' of
                        Inl f \<Rightarrow> (Abort f, out', inp, iov')
                      | Inr inp' \<Rightarrow> iov_memmove iov' out' inp' sz')))))
      else (Success, out, inp, iov))"
  by pat_completeness auto
termination
  by (relation "measure (\<lambda>(iov, out, inp, sz). sz)")
     (auto simp: iov_addr_def Let_def split: if_splits)

text \<open>\<^verbatim>\<open>iov_memset\<close>.\<close>

function iov_memset ::
  "Tex3DS_IOVec list \<Rightarrow> iov_iter \<Rightarrow> byte \<Rightarrow> nat \<Rightarrow> outcome \<times> iov_iter \<times> Tex3DS_IOVec list" where
  "iov_memset iov out val sz =
     (if sz > 0 then
        (case iov_addr iov out of
           Inl f \<Rightarrow> (Abort f, out, iov)
         | Inr dest \<Rightarrow>
             let bytes = (if sz < length (iov ! num out) - pos out then sz
                          else length (iov ! num out) - pos out)
             in (case iov_add (poke_bytes iov dest (replicate bytes val)) out bytes of
                   Inl f \<Rightarrow> (Abort f, out, poke_bytes iov dest (replicate bytes val))
                 | Inr out' \<Rightarrow>
                     iov_memset (poke_bytes iov dest (replicate bytes val)) out' val (sz - bytes)))
      else (Success, out, iov))"
  by pat_completeness auto
termination
  by (relation "measure (\<lambda>(iov, out, val, sz). sz)")
     (auto simp: iov_addr_def split: if_splits)

section \<open>Decode strategies (decompress.c)\<close>

text \<open>
  \<^verbatim>\<open>lzss_decode\<close>. \<open>lzss_loop\<close> is its \<^verbatim>\<open>while(size > 0)\<close> loop over the variables
  \<^verbatim>\<open>out\<close>, \<^verbatim>\<open>flags\<close>, \<^verbatim>\<open>mask\<close> and \<^verbatim>\<open>size\<close>. In the compressed block the call is
  \<^verbatim>\<open>iov_memmove(&out, &in, size)\<close>, with \<^verbatim>\<open>size\<close> already reduced by \<^verbatim>\<open>len\<close>.
\<close>

definition lzss_len :: "byte \<Rightarrow> nat" where
  "lzss_len d0 = unat (drop_bit 4 (d0 AND 0xF0)) + 3"

definition lzss_disp :: "byte \<Rightarrow> byte \<Rightarrow> nat" where
  "lzss_disp d0 d1 = push_bit 8 (unat (d0 AND 0x0F)) OR unat d1"

function lzss_loop ::
  "'u Tex3DS_DataCallback \<Rightarrow> 'u input \<Rightarrow> Tex3DS_IOVec list \<Rightarrow> iov_iter \<Rightarrow> byte \<Rightarrow> byte \<Rightarrow> nat
     \<Rightarrow> outcome \<times> Tex3DS_IOVec list \<times> 'u input" where
  "lzss_loop callback input iov out flags msk sz =
     (if sz > 0 then
        (case (if msk = 0 then
                 (case Tex3DS_BufferGet callback input of
                    (None, input') \<Rightarrow> Inl input'
                  | (Some b, input') \<Rightarrow> Inr (b, 0x80, input'))
               else Inr (flags, msk, input)) of
           Inl input' \<Rightarrow> (Failure, iov, input')
         | Inr (flags, msk, input) \<Rightarrow>
             if flags AND msk \<noteq> 0 then
               (case Tex3DS_BufferGet callback input of
                  (None, input') \<Rightarrow> (Failure, iov, input')
                | (Some d0, input') \<Rightarrow>
               (case Tex3DS_BufferGet callback input' of
                  (None, input'') \<Rightarrow> (Failure, iov, input'')
                | (Some d1, input'') \<Rightarrow>
                    let len = (if lzss_len d0 > sz then sz else lzss_len d0);
                        sz' = sz - len
                    in (case iov_sub iov out (lzss_disp d0 d1 + 1) of
                          Inl f \<Rightarrow> (Abort f, iov, input'')
                        | Inr inp \<Rightarrow>
                            (case iov_memmove iov out inp sz' of
                               (oc, out', inp', iov') \<Rightarrow>
                                 if oc = Success then
                                   lzss_loop callback input'' iov' out' flags
                                     (drop_bit 1 msk) sz'
                                 else (oc, iov', input'')))))
             else
               (case iov_addr iov out of
                  Inl f \<Rightarrow> (Abort f, iov, input)
                | Inr dest \<Rightarrow>
               (case Tex3DS_BufferGet callback input of
                  (None, input') \<Rightarrow> (Failure, iov, input')
                | (Some b, input') \<Rightarrow>
                    (case iov_increment (poke iov dest b) out of
                       Inl f \<Rightarrow> (Abort f, poke iov dest b, input')
                     | Inr out' \<Rightarrow>
                         lzss_loop callback input' (poke iov dest b) out' flags
                           (drop_bit 1 msk) (sz - 1)))))
      else (Success, iov, input))"
  by pat_completeness auto
termination
  by (relation "measure (\<lambda>(callback, input, iov, out, flags, msk, sz). sz)")
     (auto simp: lzss_len_def split: if_splits)

definition lzss_decode ::
  "'u Tex3DS_DataCallback \<Rightarrow> 'u input \<Rightarrow> Tex3DS_IOVec list \<Rightarrow> nat
     \<Rightarrow> outcome \<times> Tex3DS_IOVec list \<times> 'u input" where
  "lzss_decode callback input iov sz =
     lzss_loop callback input iov (iov_begin iov (length iov)) 0 0 sz"

text \<open>
  \<^verbatim>\<open>lz11_decode\<close>. \<open>lz11_displen\<close> is the \<^verbatim>\<open>switch(displen[pos] >> 4)\<close> of a compressed
  block together with the two statements after it that assemble \<^verbatim>\<open>disp\<close>; \<open>d0\<close> is
  \<^verbatim>\<open>displen[0]\<close>, already read. It yields \<^verbatim>\<open>len\<close> and \<^verbatim>\<open>disp\<close>, or nothing when a read
  fails.
\<close>

definition lz11_len_ext :: "byte \<Rightarrow> byte \<Rightarrow> nat" where
  "lz11_len_ext d0 d1 =
     (push_bit 4 (unat d0) OR unat (drop_bit 4 d1)) + 0x11"

definition lz11_len_extra :: "byte \<Rightarrow> byte \<Rightarrow> byte \<Rightarrow> nat" where
  "lz11_len_extra d0 d1 d2 =
     (push_bit 12 (unat (d0 AND 0x0F)) OR push_bit 4 (unat d1) OR unat (drop_bit 4 d2))
       + 0x111"

definition lz11_len_normal :: "byte \<Rightarrow> nat" where
  "lz11_len_normal d0 = unat (drop_bit 4 d0) + 1"

definition lz11_disp :: "byte \<Rightarrow> byte \<Rightarrow> nat" where
  "lz11_disp p q = push_bit 8 (unat (p AND 0x0F)) OR unat q"

definition lz11_displen ::
  "'u Tex3DS_DataCallback \<Rightarrow> 'u input \<Rightarrow> byte \<Rightarrow> (nat \<times> nat) option \<times> 'u input" where
  "lz11_displen callback input d0 =
     (if drop_bit 4 d0 = 0 then
        (case Tex3DS_BufferGet callback input of
           (None, input1) \<Rightarrow> (None, input1)
         | (Some d1, input1) \<Rightarrow>
        (case Tex3DS_BufferGet callback input1 of
           (None, input2) \<Rightarrow> (None, input2)
         | (Some d2, input2) \<Rightarrow>
             (Some (lz11_len_ext d0 d1, lz11_disp d1 d2), input2)))
      else if drop_bit 4 d0 = 1 then
        (case Tex3DS_BufferGet callback input of
           (None, input1) \<Rightarrow> (None, input1)
         | (Some d1, input1) \<Rightarrow>
        (case Tex3DS_BufferGet callback input1 of
           (None, input2) \<Rightarrow> (None, input2)
         | (Some d2, input2) \<Rightarrow>
        (case Tex3DS_BufferGet callback input2 of
           (None, input3) \<Rightarrow> (None, input3)
         | (Some d3, input3) \<Rightarrow>
             (Some (lz11_len_extra d0 d1 d2, lz11_disp d2 d3), input3))))
      else
        (case Tex3DS_BufferGet callback input of
           (None, input1) \<Rightarrow> (None, input1)
         | (Some d1, input1) \<Rightarrow>
             (Some (lz11_len_normal d0, lz11_disp d0 d1), input1)))"

lemma lz11_displen_len_pos:
  "lz11_displen callback input d0 = (Some (len, disp), input') \<Longrightarrow> 0 < len"
  by (auto simp: lz11_displen_def lz11_len_ext_def lz11_len_extra_def lz11_len_normal_def
           split: if_splits prod.splits option.splits)

text \<open>
  \<open>lz11_loop\<close> is the \<^verbatim>\<open>while(size > 0)\<close> loop with its inner
  \<^verbatim>\<open>for(i = 0; i < 8 && size > 0; i++, flags <<= 1)\<close> loop, as one recursion over \<^verbatim>\<open>i\<close>,
  \<^verbatim>\<open>flags\<close>, \<^verbatim>\<open>out\<close> and \<^verbatim>\<open>size\<close>: a round of the \<^verbatim>\<open>for\<close> loop while its condition holds,
  else the next flags byte when \<^verbatim>\<open>size > 0\<close>. The decoder enters with the \<^verbatim>\<open>for\<close> loop
  finished (\<open>i = 8\<close>). As in \<^verbatim>\<open>lzss_decode\<close> the call in the compressed block is
  \<^verbatim>\<open>iov_memmove(&out, &in, size)\<close>.
\<close>

function lz11_loop ::
  "'u Tex3DS_DataCallback \<Rightarrow> 'u input \<Rightarrow> Tex3DS_IOVec list \<Rightarrow> iov_iter \<Rightarrow> nat \<Rightarrow> byte \<Rightarrow> nat
     \<Rightarrow> outcome \<times> Tex3DS_IOVec list \<times> 'u input" where
  "lz11_loop callback input iov out i flags sz =
     (if i < 8 \<and> sz > 0 then
        if flags AND 0x80 \<noteq> 0 then
          (case Tex3DS_BufferGet callback input of
             (None, input1) \<Rightarrow> (Failure, iov, input1)
           | (Some d0, input1) \<Rightarrow>
               (case lz11_displen callback input1 d0 of
                  (None, input2) \<Rightarrow> (Failure, iov, input2)
                | (Some (len0, disp), input2) \<Rightarrow>
                    let len = (if len0 > sz then sz else len0);
                        sz' = sz - len
                    in (case iov_sub iov out (disp + 1) of
                          Inl f \<Rightarrow> (Abort f, iov, input2)
                        | Inr inp \<Rightarrow>
                            (case iov_memmove iov out inp sz' of
                               (oc, out', inp', iov') \<Rightarrow>
                                 if oc = Success then
                                   lz11_loop callback input2 iov' out' (i + 1)
                                     (push_bit 1 flags) sz'
                                 else (oc, iov', input2)))))
        else
          (case iov_addr iov out of
             Inl f \<Rightarrow> (Abort f, iov, input)
           | Inr dest \<Rightarrow>
          (case Tex3DS_BufferGet callback input of
             (None, input1) \<Rightarrow> (Failure, iov, input1)
           | (Some b, input1) \<Rightarrow>
               (case iov_increment (poke iov dest b) out of
                  Inl f \<Rightarrow> (Abort f, poke iov dest b, input1)
                | Inr out' \<Rightarrow>
                    lz11_loop callback input1 (poke iov dest b) out' (i + 1)
                      (push_bit 1 flags) (sz - 1))))
      else if sz > 0 then
        (case Tex3DS_BufferGet callback input of
           (None, input1) \<Rightarrow> (Failure, iov, input1)
         | (Some b, input1) \<Rightarrow> lz11_loop callback input1 iov out 0 b sz)
      else (Success, iov, input))"
  by pat_completeness auto
termination
proof (relation "measure (\<lambda>(callback, input, iov, out, i, flags, sz).
        2 * sz + (if i < 8 then 0 else 1))", goal_cases)
  case 1
  show ?case by simp
next
  case (2 callback input iov out i flags sz x y x2 xa ya x2a xb yb xc xd)
  from \<open>(xa, ya) = lz11_displen callback y x2\<close> \<open>xa = Some x2a\<close> \<open>(xb, yb) = x2a\<close>
  have "lz11_displen callback y x2 = (Some (xb, yb), ya)" by simp
  then have "0 < xb" by (rule lz11_displen_len_pos)
  with \<open>i < 8 \<and> 0 < sz\<close> \<open>xc = (if sz < xb then sz else xb)\<close> \<open>xd = sz - xc\<close>
  have "xd < sz" by (simp split: if_splits)
  then show ?case by simp
next
  case (3 callback input iov out i flags sz)
  from \<open>i < 8 \<and> 0 < sz\<close> show ?case by auto
next
  case (4 callback input iov out i flags sz)
  from \<open>\<not> (i < 8 \<and> 0 < sz)\<close> \<open>0 < sz\<close> show ?case by auto
qed

definition lz11_decode ::
  "'u Tex3DS_DataCallback \<Rightarrow> 'u input \<Rightarrow> Tex3DS_IOVec list \<Rightarrow> nat
     \<Rightarrow> outcome \<times> Tex3DS_IOVec list \<times> 'u input" where
  "lz11_decode callback input iov sz =
     lz11_loop callback input iov (iov_begin iov (length iov)) 8 0 sz"

text \<open>
  \<^verbatim>\<open>huff_decode\<close>. \<open>tree\<close> is what \<^verbatim>\<open>malloc(512)\<close> returned: \<open>None\<close> when it failed, else
  the block with the bytes it holds. \<open>store_at\<close> is the store of a read into the block from
  an offset on. An index into the tree outside the block stops the run. \<open>huff_loop\<close> is the
  \<^verbatim>\<open>while(size > 0)\<close> loop over \<^verbatim>\<open>out\<close>, \<^verbatim>\<open>word\<close>, \<^verbatim>\<open>mask\<close>, \<^verbatim>\<open>node\<close> and \<^verbatim>\<open>size\<close>.
\<close>

definition store_at :: "byte list \<Rightarrow> nat \<Rightarrow> byte list \<Rightarrow> byte list" where
  "store_at tree off bs = take off tree @ bs @ drop (off + length bs) tree"

text \<open>The four reads into \<^verbatim>\<open>wordbuf\<close> and the word assembled from them.\<close>

definition huff_word ::
  "'u Tex3DS_DataCallback \<Rightarrow> 'u input \<Rightarrow> 32 word option \<times> 'u input" where
  "huff_word callback input =
     (case Tex3DS_BufferGet callback input of
        (None, input1) \<Rightarrow> (None, input1)
      | (Some w0, input1) \<Rightarrow>
     (case Tex3DS_BufferGet callback input1 of
        (None, input2) \<Rightarrow> (None, input2)
      | (Some w1, input2) \<Rightarrow>
     (case Tex3DS_BufferGet callback input2 of
        (None, input3) \<Rightarrow> (None, input3)
      | (Some w2, input3) \<Rightarrow>
     (case Tex3DS_BufferGet callback input3 of
        (None, input4) \<Rightarrow> (None, input4)
      | (Some w3, input4) \<Rightarrow>
          (Some (push_bit 0 (ucast w0) OR push_bit 8 (ucast w1)
                   OR push_bit 16 (ucast w2) OR push_bit 24 (ucast w3)), input4)))))"

function huff_loop ::
  "'u Tex3DS_DataCallback \<Rightarrow> 'u input \<Rightarrow> Tex3DS_IOVec list \<Rightarrow> iov_iter \<Rightarrow> byte list
     \<Rightarrow> 32 word \<Rightarrow> 32 word \<Rightarrow> nat \<Rightarrow> nat \<Rightarrow> outcome \<times> Tex3DS_IOVec list \<times> 'u input" where
  "huff_loop callback input iov out tree word msk node sz =
     (if sz > 0 then
        (case (if msk = 0 then
                 (case huff_word callback input of
                    (None, input') \<Rightarrow> Inl input'
                  | (Some w, input') \<Rightarrow> Inr (w, 0x80000000, input'))
               else Inr (word, msk, input)) of
           Inl input' \<Rightarrow> (Failure, iov, input')
         | Inr (word, msk, input) \<Rightarrow>
             if \<not> node < length tree then (Abort OutOfBounds, iov, input)
             else
               let offset = unat (tree ! node AND 0x1F);
                   child = (node - node mod 2) + offset * 2 + 2
               in if word AND msk \<noteq> 0 then
                    if tree ! node AND 0x40 \<noteq> 0 then
                      if \<not> child + 1 < length tree then (Abort OutOfBounds, iov, input)
                      else
                        (case iov_addr iov out of
                           Inl f \<Rightarrow> (Abort f, iov, input)
                         | Inr dest \<Rightarrow>
                             (case iov_increment (poke iov dest (tree ! (child + 1) AND 0xFF)) out of
                                Inl f \<Rightarrow>
                                  (Abort f, poke iov dest (tree ! (child + 1) AND 0xFF), input)
                              | Inr out' \<Rightarrow>
                                  huff_loop callback input
                                    (poke iov dest (tree ! (child + 1) AND 0xFF)) out' tree
                                    word (drop_bit 1 msk) 1 (sz - 1)))
                    else huff_loop callback input iov out tree word (drop_bit 1 msk)
                           (child + 1) sz
                  else
                    if tree ! node AND 0x80 \<noteq> 0 then
                      if \<not> child < length tree then (Abort OutOfBounds, iov, input)
                      else
                        (case iov_addr iov out of
                           Inl f \<Rightarrow> (Abort f, iov, input)
                         | Inr dest \<Rightarrow>
                             (case iov_increment (poke iov dest (tree ! child AND 0xFF)) out of
                                Inl f \<Rightarrow> (Abort f, poke iov dest (tree ! child AND 0xFF), input)
                              | Inr out' \<Rightarrow>
                                  huff_loop callback input
                                    (poke iov dest (tree ! child AND 0xFF)) out' tree
                                    word (drop_bit 1 msk) 1 (sz - 1)))
                    else huff_loop callback input iov out tree word (drop_bit 1 msk) child sz)
      else (Success, iov, input))"
  by pat_completeness auto
termination
proof (relation "measures [\<lambda>(callback, input, iov, out, tree, word, msk, node, sz). sz,
                          \<lambda>(callback, input, iov, out, tree, word, msk, node, sz).
                             length tree - node]", goal_cases)
  case 1
  show ?case by simp
next
  case 2
  then show ?case by simp
next
  case (3 callback input iov out tree word msk node sz b x y xa ya xb xc)
  have "node < node - node mod 2 + xb * 2 + 2 + 1" by presburger
  with \<open>\<not> \<not> node < length tree\<close> \<open>xc = node - node mod 2 + xb * 2 + 2\<close>
  show ?case by simp
next
  case 4
  then show ?case by simp
next
  case (5 callback input iov out tree word msk node sz b x y xa ya xb xc)
  have "node < node - node mod 2 + xb * 2 + 2" by presburger
  with \<open>\<not> \<not> node < length tree\<close> \<open>xc = node - node mod 2 + xb * 2 + 2\<close>
  show ?case by simp
qed

definition huff_decode ::
  "'u Tex3DS_DataCallback \<Rightarrow> 'u input \<Rightarrow> Tex3DS_IOVec list \<Rightarrow> nat \<Rightarrow> byte list option
     \<Rightarrow> outcome \<times> Tex3DS_IOVec list \<times> 'u input" where
  "huff_decode callback input iov sz tree =
     (case tree of
        None \<Rightarrow> (Failure, iov, input)
      | Some tree0 \<Rightarrow>
          (case Tex3DS_BufferRead callback input 1 of
             (ok, got, input1) \<Rightarrow>
               if \<not> ok then (Failure, iov, input1)
               else
                 let tree1 = store_at tree0 0 got in
                 (case Tex3DS_BufferRead callback input1 ((unat (tree1 ! 0) + 1) * 2 - 1) of
                    (ok, got, input2) \<Rightarrow>
                      if \<not> ok then (Failure, iov, input2)
                      else huff_loop callback input2 iov (iov_begin iov (length iov))
                             (store_at tree1 1 got) 0 0 1 sz)))"

text \<open>
  \<^verbatim>\<open>rle_decode\<close>; \<open>rle_loop\<close> is its \<^verbatim>\<open>while(size > 0)\<close> loop over \<^verbatim>\<open>out\<close> and \<^verbatim>\<open>size\<close>.
\<close>

function rle_loop ::
  "'u Tex3DS_DataCallback \<Rightarrow> 'u input \<Rightarrow> Tex3DS_IOVec list \<Rightarrow> iov_iter \<Rightarrow> nat
     \<Rightarrow> outcome \<times> Tex3DS_IOVec list \<times> 'u input" where
  "rle_loop callback input iov out sz =
     (if sz > 0 then
        (case Tex3DS_BufferGet callback input of
           (None, input1) \<Rightarrow> (Failure, iov, input1)
         | (Some byte, input1) \<Rightarrow>
             if byte AND 0x80 \<noteq> 0 then
               let len = (if unat (byte AND 0x7F) + 3 > sz then sz else unat (byte AND 0x7F) + 3);
                   sz' = sz - len
               in (case Tex3DS_BufferGet callback input1 of
                     (None, input2) \<Rightarrow> (Failure, iov, input2)
                   | (Some val, input2) \<Rightarrow>
                       (case iov_memset iov out val len of
                          (oc, out', iov') \<Rightarrow>
                            if oc = Success then rle_loop callback input2 iov' out' sz'
                            else (oc, iov', input2)))
             else
               let len = (if unat (byte AND 0x7F) + 1 > sz then sz else unat (byte AND 0x7F) + 1);
                   sz' = sz - len
               in (case iov_read callback input1 iov out len of
                     (oc, out', iov', input2) \<Rightarrow>
                       if oc = Success then rle_loop callback input2 iov' out' sz'
                       else (oc, iov', input2)))
      else (Success, iov, input))"
  by pat_completeness auto
termination
proof (relation "measure (\<lambda>(callback, input, iov, out, sz). sz)", goal_cases)
  case 1
  show ?case by simp
next
  case (2 callback input iov out sz x y x2 xa xb)
  from \<open>0 < sz\<close> \<open>xa = (if sz < unat (x2 AND 127) + 3 then sz else unat (x2 AND 127) + 3)\<close>
    \<open>xb = sz - xa\<close>
  have "xb < sz" by (simp split: if_splits)
  then show ?case by simp
next
  case (3 callback input iov out sz x y x2 xa xb)
  from \<open>0 < sz\<close> \<open>xa = (if sz < unat (x2 AND 127) + 1 then sz else unat (x2 AND 127) + 1)\<close>
    \<open>xb = sz - xa\<close>
  have "xb < sz" by (simp split: if_splits)
  then show ?case by simp
qed

definition rle_decode ::
  "'u Tex3DS_DataCallback \<Rightarrow> 'u input \<Rightarrow> Tex3DS_IOVec list \<Rightarrow> nat
     \<Rightarrow> outcome \<times> Tex3DS_IOVec list \<times> 'u input" where
  "rle_decode callback input iov sz =
     rle_loop callback input iov (iov_begin iov (length iov)) sz"

section \<open>Codec dispatcher (decompress.c)\<close>

text \<open>
  \<^verbatim>\<open>Tex3DS_DecompressV\<close>; \<^verbatim>\<open>iovcnt\<close> is the length of the region list, and \<open>tree\<close> is what
  \<^verbatim>\<open>malloc(512)\<close> returns should \<^verbatim>\<open>huff_decode\<close> run. \<open>header_size\<close> and \<open>header_size_ext\<close>
  are the two expressions that assemble \<^verbatim>\<open>size\<close> from \<^verbatim>\<open>header[1..3]\<close> and \<^verbatim>\<open>header[4]\<close>
  (the shifts are done in \<^verbatim>\<open>int\<close>; with the 32-bit \<^verbatim>\<open>size_t\<close> of the target the conversion
  keeps the 32 bits). \<open>decode_kind\<close> is the \<^verbatim>\<open>switch(type)\<close>.
\<close>

definition header_size :: "byte list \<Rightarrow> nat" where
  "header_size header =
     push_bit 0 (unat (header ! 1)) OR push_bit 8 (unat (header ! 2))
       OR push_bit 16 (unat (header ! 3))"

definition header_size_ext :: "nat \<Rightarrow> byte list \<Rightarrow> nat" where
  "header_size_ext sz header4 = sz OR push_bit 24 (unat (header4 ! 0))"

definition decode_kind ::
  "'u Tex3DS_DataCallback \<Rightarrow> 'u input \<Rightarrow> Tex3DS_IOVec list \<Rightarrow> byte list option \<Rightarrow> byte \<Rightarrow> nat
     \<Rightarrow> outcome \<times> Tex3DS_IOVec list \<times> 'u input" where
  "decode_kind callback input iov tree type sz =
     (if type = 0x00 then
        (case iov_read callback input iov (iov_begin iov (length iov)) sz of
           (oc, out', iov', input') \<Rightarrow> (oc, iov', input'))
      else if type = 0x10 then lzss_decode callback input iov sz
      else if type = 0x11 then lz11_decode callback input iov sz
      else if type = 0x28 then huff_decode callback input iov sz tree
      else if type = 0x30 then rle_decode callback input iov sz
      else (Failure, iov, input))"

definition Tex3DS_DecompressV ::
  "'u Tex3DS_DataCallback \<Rightarrow> 'u input \<Rightarrow> Tex3DS_IOVec list \<Rightarrow> byte list option
     \<Rightarrow> outcome \<times> Tex3DS_IOVec list \<times> 'u input" where
  "Tex3DS_DecompressV callback input iov tree =
     (if length iov = 0 then (Failure, iov, input)
      else
        (case Tex3DS_BufferRead callback input 4 of
           (ok, header, input1) \<Rightarrow>
             if \<not> ok then (Failure, iov, input1)
             else
               (case (if header ! 0 AND 0x80 \<noteq> 0 then
                        (case Tex3DS_BufferRead callback input1 4 of
                           (ok4, header4, input2) \<Rightarrow>
                             if \<not> ok4 then Inl input2
                             else Inr (header ! 0 AND NOT 0x80,
                                       header_size_ext (header_size header) header4, input2))
                      else Inr (header ! 0, header_size header, input1)) of
                  Inl input2 \<Rightarrow> (Failure, iov, input2)
                | Inr (type, sz, input2) \<Rightarrow>
                    (case iov_size iov of
                       Inl f \<Rightarrow> (Abort f, iov, input2)
                     | Inr iovsize \<Rightarrow>
                         decode_kind callback input2 iov tree type
                           (if iovsize < sz then iovsize else sz)))))"

text \<open>\<^verbatim>\<open>Tex3DS_Decompress\<close>: one region, the output block of \<^verbatim>\<open>outsize\<close> bytes.\<close>

definition Tex3DS_Decompress ::
  "'u Tex3DS_DataCallback \<Rightarrow> 'u input \<Rightarrow> byte list \<Rightarrow> byte list option
     \<Rightarrow> outcome \<times> Tex3DS_IOVec list \<times> 'u input" where
  "Tex3DS_Decompress callback input output tree =
     Tex3DS_DecompressV callback input [output] tree"

text \<open>The recursion equations of the loops are unfolded by hand, one round at a time.\<close>

declare Tex3DS_BufferRead.simps [simp del]
  iov_add.simps [simp del]
  iov_sub.simps [simp del]
  iov_read.simps [simp del]
  iov_memmove.simps [simp del]
  iov_memset.simps [simp del]
  lzss_loop.simps [simp del]
  lz11_loop.simps [simp del]
  huff_loop.simps [simp del]
  rle_loop.simps [simp del]

section \<open>The streaming buffer as a byte stream\<close>

text \<open>
  The resident bytes of a buffer are those at the offsets from \<^verbatim>\<open>pos\<close> up to \<^verbatim>\<open>size\<close>.
  A buffer is well formed when \<^verbatim>\<open>pos \<le> size\<close> and the storage holds \<^verbatim>\<open>size\<close> bytes.
\<close>

definition resident :: "Tex3DS_Buffer \<Rightarrow> byte list" where
  "resident b = bytes_at (data b) (bpos b) (bsize b - bpos b)"

definition wf_buffer :: "Tex3DS_Buffer \<Rightarrow> bool" where
  "wf_buffer b = (bpos b \<le> bsize b \<and> bsize b \<le> length (data b))"

text \<open>
  The number of bytes \<open>callback_mem\<close> hands over, asked for \<open>lim\<close> bytes a call, before a
  call of it returns 0 or less.
\<close>

fun deliverable :: "nat \<Rightarrow> byte list \<Rightarrow> int list \<Rightarrow> nat" where
  "deliverable lim bytes [] = (if lim = 0 then 0 else length bytes)"
| "deliverable lim bytes (c # plan) =
     (if c \<le> 0 \<or> min (nat c) (min lim (length bytes)) = 0 then 0
      else min (nat c) (min lim (length bytes))
           + deliverable lim (drop (min (nat c) (min lim (length bytes))) bytes) plan)"

text \<open>All that is still to come: the resident bytes, then those of the source.\<close>

definition pending :: "source input \<Rightarrow> byte list" where
  "pending input = resident (fst input) @ fst (snd input)"

text \<open>
  An input that cannot fail before its bytes are used up: a well-formed buffer with room
  for at least one byte, over a source of partial fills only.
\<close>

definition ready :: "source input \<Rightarrow> bool" where
  "ready input =
     (wf_buffer (fst input) \<and> 0 < limit (fst input) \<and> list_all (\<lambda>c. 0 < c) (snd (snd input)))"

lemma length_resident: "wf_buffer b \<Longrightarrow> length (resident b) = bsize b - bpos b"
  by (auto simp add: resident_def wf_buffer_def bytes_at_def min_def)

lemma BufferRead_resident:
  assumes "wf_buffer b" and "n \<le> length (resident b)"
  shows "Tex3DS_BufferRead callback (b, u) n =
           (True, take n (resident b), (b\<lparr>bpos := bpos b + n\<rparr>, u))"
proof (cases "n = 0")
  case True
  then show ?thesis by (subst Tex3DS_BufferRead.simps) simp
next
  case False
  from assms have "n \<le> bsize b - bpos b"
    by (simp add: length_resident)
  with False show ?thesis
    by (subst Tex3DS_BufferRead.simps) (simp add: resident_def bytes_at_def min_def)
qed

lemma BufferRead_refill:
  assumes "wf_buffer b" and "length (resident b) < n" and "callback u (limit b) = (rc, wr, u')"
  shows "Tex3DS_BufferRead callback (b, u) n =
           (if rc \<le> 0 then
              (False, resident b,
               (b\<lparr>bsize := 0, bpos := 0, data := stored wr (data b)\<rparr>, u'))
            else
              (case Tex3DS_BufferRead callback
                      (b\<lparr>bsize := nat rc, bpos := 0, data := stored wr (data b)\<rparr>, u')
                      (n - length (resident b)) of
                 (ok, rest, input') \<Rightarrow> (ok, resident b @ rest, input')))"
proof -
  from assms(1,2) have n: "0 < n" "\<not> n \<le> bsize b - bpos b"
    by (simp_all add: length_resident)
  have part: "(if bpos b \<noteq> bsize b then bytes_at (data b) (bpos b) (bsize b - bpos b) else [])
                = resident b"
    by (simp add: resident_def bytes_at_def)
  have sz: "(if bpos b \<noteq> bsize b then n - (bsize b - bpos b) else n) = n - length (resident b)"
    using assms(1) by (simp add: length_resident)
  show ?thesis
    by (subst Tex3DS_BufferRead.simps) (simp add: n part sz assms(3) Let_def)
qed

lemma resident_advance:
  "resident (b\<lparr>bpos := bpos b + n\<rparr>) = drop n (resident b)"
  by (simp add: resident_def bytes_at_def drop_take add.commute)

lemma wf_buffer_advance:
  "wf_buffer b \<Longrightarrow> n \<le> length (resident b) \<Longrightarrow> wf_buffer (b\<lparr>bpos := bpos b + n\<rparr>)"
  by (auto simp add: wf_buffer_def length_resident)

lemma refilled:
  assumes "length wr = k"
  shows "wf_buffer (b\<lparr>bsize := k, bpos := 0, data := stored wr (data b)\<rparr>)"
    and "resident (b\<lparr>bsize := k, bpos := 0, data := stored wr (data b)\<rparr>) = wr"
  using assms by (simp_all add: wf_buffer_def resident_def bytes_at_def stored_def)

text \<open>One pull of \<open>callback_mem\<close>: the number of bytes it hands over.\<close>

definition fill :: "nat \<Rightarrow> byte list \<Rightarrow> int list \<Rightarrow> nat" where
  "fill lim bytes plan =
     (case plan of [] \<Rightarrow> min lim (length bytes)
      | c # cs \<Rightarrow> if c \<le> 0 then 0 else min (nat c) (min lim (length bytes)))"

lemma callback_mem_fill:
  "\<exists>rc. callback_mem (bytes, plan) lim =
          (rc, take (fill lim bytes plan) bytes, (drop (fill lim bytes plan) bytes, tl plan))
        \<and> (rc \<le> 0 \<longleftrightarrow> fill lim bytes plan = 0)
        \<and> (0 < rc \<longrightarrow> nat rc = fill lim bytes plan)"
  by (cases plan) (auto simp: fill_def)

lemma deliverable_fill:
  "deliverable lim bytes plan =
     (if fill lim bytes plan = 0 then 0
      else fill lim bytes plan
           + deliverable lim (drop (fill lim bytes plan) bytes) (tl plan))"
proof (cases plan)
  case Nil
  then show ?thesis by (simp add: fill_def min_def)
next
  case (Cons c cs)
  then show ?thesis by (auto simp add: fill_def min_def)
qed

lemma fill_le: "fill lim bytes plan \<le> length bytes"
  by (cases plan) (auto simp: fill_def)

lemma BufferRead_mem:
  assumes "wf_buffer b"
  shows "\<exists>got b' bytes' plan'.
           Tex3DS_BufferRead callback_mem (b, (bytes, plan)) n =
             (n \<le> length (resident b) + deliverable (limit b) bytes plan,
              got, (b', (bytes', plan')))
           \<and> (n \<le> length (resident b) + deliverable (limit b) bytes plan \<longrightarrow>
                got = take n (resident b @ bytes) \<and> wf_buffer b' \<and> limit b' = limit b
                \<and> total b' = total b \<and> resident b' @ bytes' = drop n (resident b @ bytes)
                \<and> (\<exists>k. plan' = drop k plan))"
  using assms
proof (induction m \<equiv> "2 * n + (if bsize b - bpos b = 0 then 1 else 0 :: nat)"
         arbitrary: b bytes plan n rule: less_induct)
  case less
  show ?case
  proof (cases "n \<le> length (resident b)")
    case True
    have "plan = drop 0 plan" by simp
    with True less.prems show ?thesis
      by (auto simp: BufferRead_resident resident_advance wf_buffer_advance
            intro: exI [of _ 0])
  next
    case False
    define k where "k = fill (limit b) bytes plan"
    define b1 where "b1 = b\<lparr>bsize := k, bpos := 0, data := stored (take k bytes) (data b)\<rparr>"
    obtain rc where cb: "callback_mem (bytes, plan) (limit b) =
                           (rc, take k bytes, (drop k bytes, tl plan))"
      and rc0: "rc \<le> 0 \<longleftrightarrow> k = 0" and rck: "0 < rc \<longrightarrow> nat rc = k"
      using callback_mem_fill [of bytes plan "limit b"] unfolding k_def by auto
    have kle: "k \<le> length bytes" unfolding k_def by (rule fill_le)
    have dv: "deliverable (limit b) bytes plan =
                (if k = 0 then 0 else k + deliverable (limit b) (drop k bytes) (tl plan))"
      unfolding k_def by (rule deliverable_fill)
    from False have lt: "length (resident b) < n" by simp
    note step = BufferRead_refill [where callback = callback_mem, OF less.prems lt cb]
    show ?thesis
    proof (cases "k = 0")
      case True
      with rc0 have "rc \<le> 0" by simp
      with step True dv lt show ?thesis by simp
    next
      case kpos: False
      with rc0 rck have rc: "\<not> rc \<le> 0" "nat rc = k" by auto
      have wf1: "wf_buffer b1" and res1: "resident b1 = take k bytes"
        unfolding b1_def using kle by (simp_all add: refilled)
      have lim1: "limit b1 = limit b" and tot1: "total b1 = total b"
        by (simp_all add: b1_def)
      have "2 * (n - length (resident b)) + (if bsize b1 - bpos b1 = 0 then 1 else 0)
              < 2 * n + (if bsize b - bpos b = 0 then 1 else 0)"
        using lt kpos less.prems by (auto simp: b1_def length_resident)
      from less.hyps [OF this wf1, of "drop k bytes" "tl plan"]
      obtain got b' bytes' plan' where
        r: "Tex3DS_BufferRead callback_mem (b1, (drop k bytes, tl plan)) (n - length (resident b)) =
              (n - length (resident b) \<le> length (resident b1)
                 + deliverable (limit b1) (drop k bytes) (tl plan), got, (b', (bytes', plan')))"
        and ok: "n - length (resident b) \<le> length (resident b1)
                   + deliverable (limit b1) (drop k bytes) (tl plan) \<longrightarrow>
                 got = take (n - length (resident b)) (resident b1 @ drop k bytes)
                 \<and> wf_buffer b' \<and> limit b' = limit b1 \<and> total b' = total b1
                 \<and> resident b' @ bytes' = drop (n - length (resident b)) (resident b1 @ drop k bytes)
                 \<and> (\<exists>j. plan' = drop j (tl plan))"
        by blast
      have len1: "length (resident b1) = k"
        using res1 kle by simp
      have flag: "(n - length (resident b) \<le> length (resident b1)
                     + deliverable (limit b1) (drop k bytes) (tl plan))
                  = (n \<le> length (resident b) + deliverable (limit b) bytes plan)"
        using lt kpos by (simp add: dv len1 lim1) arith
      have whole: "resident b1 @ drop k bytes = bytes"
        by (simp add: res1)
      have res: "Tex3DS_BufferRead callback_mem (b, (bytes, plan)) n =
                   (n \<le> length (resident b) + deliverable (limit b) bytes plan,
                    resident b @ got, (b', (bytes', plan')))"
        using step rc r flag by (simp add: b1_def)
      have "Tex3DS_BufferRead callback_mem (b, (bytes, plan)) n =
              (n \<le> length (resident b) + deliverable (limit b) bytes plan,
               resident b @ got, (b', (bytes', plan')))
            \<and> (n \<le> length (resident b) + deliverable (limit b) bytes plan \<longrightarrow>
                 resident b @ got = take n (resident b @ bytes) \<and> wf_buffer b'
                 \<and> limit b' = limit b \<and> total b' = total b
                 \<and> resident b' @ bytes' = drop n (resident b @ bytes)
                 \<and> (\<exists>k. plan' = drop k plan))"
      proof (intro conjI impI)
        show "Tex3DS_BufferRead callback_mem (b, (bytes, plan)) n =
                (n \<le> length (resident b) + deliverable (limit b) bytes plan,
                 resident b @ got, (b', (bytes', plan')))"
          by (rule res)
      next
        assume a: "n \<le> length (resident b) + deliverable (limit b) bytes plan"
        with flag ok have g: "got = take (n - length (resident b)) bytes"
          and w: "wf_buffer b'" and l: "limit b' = limit b1" and t: "total b' = total b1"
          and p: "resident b' @ bytes' = drop (n - length (resident b)) bytes"
          and s: "\<exists>j. plan' = drop j (tl plan)"
          by (simp_all add: whole)
        show "resident b @ got = take n (resident b @ bytes)"
          using lt g by simp
        show "wf_buffer b'" by (rule w)
        show "limit b' = limit b" using l lim1 by simp
        show "total b' = total b" using t tot1 by simp
        show "resident b' @ bytes' = drop n (resident b @ bytes)"
          using lt p by simp
        from s obtain j where "plan' = drop j (tl plan)" ..
        then have "plan' = drop (Suc j) plan"
          by (simp add: drop_Suc)
        then show "\<exists>k. plan' = drop k plan" ..
      qed
      then show ?thesis by blast
    qed
  qed
qed

lemma deliverable_partial_fills:
  "0 < lim \<Longrightarrow> list_all (\<lambda>c. 0 < c) plan \<Longrightarrow> deliverable lim bytes plan = length bytes"
proof (induction plan arbitrary: bytes)
  case Nil
  then show ?case by simp
next
  case (Cons c plan)
  then have "deliverable lim (drop (min (nat c) (min lim (length bytes))) bytes) plan
               = length bytes - min (nat c) (min lim (length bytes))"
    by simp
  with Cons.prems show ?case
    by (auto simp: min_def)
qed

lemma BufferRead_ready:
  assumes "ready input" and "n \<le> length (pending input)"
  shows "\<exists>input'. Tex3DS_BufferRead callback_mem input n = (True, take n (pending input), input')
           \<and> ready input' \<and> pending input' = drop n (pending input)
           \<and> total (fst input') = total (fst input)"
proof -
  obtain b bytes plan where input: "input = (b, (bytes, plan))"
    by (metis prod.collapse)
  from assms(1) have wf: "wf_buffer b" and lim: "0 < limit b"
    and plan: "list_all (\<lambda>c. 0 < c) plan"
    by (simp_all add: ready_def input)
  have dv: "deliverable (limit b) bytes plan = length bytes"
    using lim plan by (rule deliverable_partial_fills)
  from assms(2) have le: "n \<le> length (resident b) + deliverable (limit b) bytes plan"
    by (simp add: dv pending_def input)
  from BufferRead_mem [OF wf, of bytes plan n]
  obtain got b' bytes' plan' where
    r0: "Tex3DS_BufferRead callback_mem (b, (bytes, plan)) n =
           (n \<le> length (resident b) + deliverable (limit b) bytes plan, got,
            (b', (bytes', plan')))"
    and imp: "n \<le> length (resident b) + deliverable (limit b) bytes plan \<longrightarrow>
                got = take n (resident b @ bytes) \<and> wf_buffer b' \<and> limit b' = limit b
                \<and> total b' = total b \<and> resident b' @ bytes' = drop n (resident b @ bytes)
                \<and> (\<exists>k. plan' = drop k plan)"
    by blast
  from r0 le have
    r: "Tex3DS_BufferRead callback_mem (b, (bytes, plan)) n = (True, got, (b', (bytes', plan')))"
    by simp
  from imp le have g: "got = take n (resident b @ bytes)" and w: "wf_buffer b'"
    and l: "limit b' = limit b" and t: "total b' = total b"
    and p: "resident b' @ bytes' = drop n (resident b @ bytes)"
    and s: "\<exists>k. plan' = drop k plan"
    by blast+
  from s plan have "list_all (\<lambda>c. 0 < c) plan'"
    by (auto simp: list_all_iff dest: in_set_dropD)
  with r g w l t p lim show ?thesis
    by (simp add: input ready_def pending_def)
qed

lemma BufferRead_ready_short:
  assumes "ready input" and "length (pending input) < n"
  shows "fst (Tex3DS_BufferRead callback_mem input n) = False"
proof -
  obtain b bytes plan where input: "input = (b, (bytes, plan))"
    by (metis prod.collapse)
  from assms(1) have wf: "wf_buffer b" and lim: "0 < limit b"
    and plan: "list_all (\<lambda>c. 0 < c) plan"
    by (simp_all add: ready_def input)
  have dv: "deliverable (limit b) bytes plan = length bytes"
    using lim plan by (rule deliverable_partial_fills)
  from assms(2) have "\<not> n \<le> length (resident b) + deliverable (limit b) bytes plan"
    by (simp add: dv pending_def input)
  with BufferRead_mem [OF wf, of bytes plan n] show ?thesis
    by (auto simp: input)
qed

lemma resident_Cons_nth:
  assumes "wf_buffer b" and "bpos b < bsize b"
  shows "resident b = data b ! bpos b # resident (b\<lparr>bpos := bpos b + 1\<rparr>)"
proof -
  from assms have "bpos b < length (data b)"
    by (simp add: wf_buffer_def)
  then have "drop (bpos b) (data b) = data b ! bpos b # drop (Suc (bpos b)) (data b)"
    by (rule Cons_nth_drop_Suc [symmetric])
  moreover from assms have "bsize b - bpos b = Suc (bsize b - Suc (bpos b))"
    by simp
  ultimately show ?thesis
    by (simp add: resident_def bytes_at_def)
qed

lemma BufferGet_ready:
  assumes "ready input" and "pending input = x # xs"
  shows "\<exists>input'. Tex3DS_BufferGet callback_mem input = (Some x, input')
           \<and> ready input' \<and> pending input' = xs"
proof -
  obtain b u where input: "input = (b, u)"
    by (metis prod.collapse)
  from assms(1) have wf: "wf_buffer b"
    by (simp add: ready_def input)
  show ?thesis
  proof (cases "bpos b < bsize b")
    case True
    from resident_Cons_nth [OF wf True] assms(2)
    have "data b ! bpos b = x" and "resident (b\<lparr>bpos := bpos b + 1\<rparr>) @ fst u = xs"
      by (simp_all add: pending_def input)
    moreover from wf True have "wf_buffer (b\<lparr>bpos := bpos b + 1, total := total b + 1\<rparr>)"
      by (simp add: wf_buffer_def)
    moreover have "resident (b\<lparr>bpos := bpos b + 1, total := total b + 1\<rparr>)
                     = resident (b\<lparr>bpos := bpos b + 1\<rparr>)"
      by (simp add: resident_def)
    ultimately show ?thesis
      using True assms(1) by (simp add: Tex3DS_BufferGet_def input ready_def pending_def)
  next
    case False
    from assms(2) have "1 \<le> length (pending input)" by simp
    from BufferRead_ready [OF assms(1) this] assms(2) False show ?thesis
      by (auto simp: Tex3DS_BufferGet_def input)
  qed
qed

lemma BufferGet_ready_empty:
  assumes "ready input" and "pending input = []"
  shows "fst (Tex3DS_BufferGet callback_mem input) = None"
proof -
  obtain b u where input: "input = (b, u)"
    by (metis prod.collapse)
  from assms have "\<not> bpos b < bsize b"
    by (auto simp add: ready_def input pending_def resident_def bytes_at_def wf_buffer_def)
  moreover from assms(2) have "length (pending input) < 1" by simp
  from BufferRead_ready_short [OF assms(1) this]
  have "fst (Tex3DS_BufferRead callback_mem (b, u) 1) = False"
    by (simp add: input)
  ultimately show ?thesis
    by (cases "Tex3DS_BufferRead callback_mem (b, u) 1")
       (simp add: Tex3DS_BufferGet_def input)
qed

lemma BufferRead_total:
  "total (fst (snd (snd (Tex3DS_BufferRead callback input n)))) = total (fst input)"
proof (induction callback input n rule: Tex3DS_BufferRead.induct)
  case (1 callback buffer userdata sz)
  show ?case
    using "1.IH"
    by (subst Tex3DS_BufferRead.simps) (auto simp: Let_def split: prod.splits if_splits)
qed

section \<open>Claims about the streaming buffer\<close>

text \<open>
  C4 (the claim: \<^verbatim>\<open>total\<close> grows by \<open>n\<close> on every successful delivery of \<open>n\<close> bytes, through
  \<^verbatim>\<open>Tex3DS_BufferRead\<close> and \<^verbatim>\<open>Tex3DS_BufferGet\<close> alike). What the code does: only the fast
  path of \<^verbatim>\<open>Tex3DS_BufferGet\<close> counts. \<^verbatim>\<open>Tex3DS_BufferRead\<close> delivers the two resident bytes
  01 02 of a buffer and leaves \<^verbatim>\<open>total\<close> at 0, and \<^verbatim>\<open>Tex3DS_BufferGet\<close> on an empty buffer
  delivers the byte 07 through the read-ahead path and leaves \<^verbatim>\<open>total\<close> at 0 as well.
\<close>

theorem BufferRead_does_not_count:
  "Tex3DS_BufferRead callback_mem
     (\<lparr>data = [1, 2, 3, 4], limit = 4, bsize = 4, bpos = 0, total = 0\<rparr>, ([], [])) 2
     = (True, [1, 2],
        (\<lparr>data = [1, 2, 3, 4], limit = 4, bsize = 4, bpos = 2, total = 0\<rparr>, ([], [])))
   \<and> Tex3DS_BufferGet callback_mem
         (\<lparr>data = [0, 0], limit = 2, bsize = 0, bpos = 0, total = 0\<rparr>, ([7, 8, 9], []))
     = (Some 7, (\<lparr>data = [7, 8], limit = 2, bsize = 2, bpos = 1, total = 0\<rparr>, ([9], [])))"
  by (simp add: Tex3DS_BufferGet_def Tex3DS_BufferRead.simps bytes_at_def stored_def)

text \<open>
  C5: \<^verbatim>\<open>Tex3DS_BufferRead\<close> of \<open>n\<close> bytes on a well-formed buffer.
  \<^item> A request the resident bytes cover is served from them alone.
  \<^item> Otherwise the resident bytes go to the destination first, the buffer is reset and the
    callback is asked for \<^verbatim>\<open>limit\<close> bytes; a return code of 0 or less makes the call return
    \<^verbatim>\<open>false\<close>, a positive one sets \<^verbatim>\<open>size\<close> and the rest of the request is read the same way.
  \<^item> Over the memory source the call returns \<^verbatim>\<open>true\<close> exactly when the resident bytes and
    the bytes the source hands over before a call of it returns 0 or less cover the request,
    and then it delivers the first \<open>n\<close> bytes of the resident bytes followed by the source's.
  \<^item> A source of partial fills delivers the same \<open>n\<close> bytes as the one that fills whole
    blocks.
\<close>

theorem BufferRead_read_exact:
  assumes "wf_buffer b"
  shows "(n \<le> length (resident b) \<longrightarrow>
            Tex3DS_BufferRead callback (b, u) n =
              (True, take n (resident b), (b\<lparr>bpos := bpos b + n\<rparr>, u)))
       \<and> (length (resident b) < n \<longrightarrow>
            Tex3DS_BufferRead callback (b, u) n =
              (case callback u (limit b) of
                 (rc, wr, u') \<Rightarrow>
                   if rc \<le> 0 then
                     (False, resident b,
                      (b\<lparr>bsize := 0, bpos := 0, data := stored wr (data b)\<rparr>, u'))
                   else
                     (case Tex3DS_BufferRead callback
                             (b\<lparr>bsize := nat rc, bpos := 0, data := stored wr (data b)\<rparr>, u')
                             (n - length (resident b)) of
                        (ok, rest, input') \<Rightarrow> (ok, resident b @ rest, input'))))
       \<and> fst (Tex3DS_BufferRead callback_mem (b, (bytes, plan)) n)
           = (n \<le> length (resident b) + deliverable (limit b) bytes plan)
       \<and> (n \<le> length (resident b) + deliverable (limit b) bytes plan \<longrightarrow>
            fst (snd (Tex3DS_BufferRead callback_mem (b, (bytes, plan)) n))
              = take n (resident b @ bytes))
       \<and> (0 < limit b \<and> list_all (\<lambda>c. 0 < c) plan \<and> n \<le> length (resident b) + length bytes \<longrightarrow>
            fst (Tex3DS_BufferRead callback_mem (b, (bytes, plan)) n)
            \<and> fst (snd (Tex3DS_BufferRead callback_mem (b, (bytes, plan)) n))
                = fst (snd (Tex3DS_BufferRead callback_mem (b, (bytes, [])) n)))"
proof (intro conjI impI)
  assume "n \<le> length (resident b)"
  with assms show "Tex3DS_BufferRead callback (b, u) n =
                     (True, take n (resident b), (b\<lparr>bpos := bpos b + n\<rparr>, u))"
    by (rule BufferRead_resident)
next
  assume lt: "length (resident b) < n"
  obtain rc wr u' where cb: "callback u (limit b) = (rc, wr, u')"
    by (metis prod_cases3)
  from BufferRead_refill [where callback = callback, OF assms lt cb] cb
  show "Tex3DS_BufferRead callback (b, u) n =
          (case callback u (limit b) of
             (rc, wr, u') \<Rightarrow>
               if rc \<le> 0 then
                 (False, resident b,
                  (b\<lparr>bsize := 0, bpos := 0, data := stored wr (data b)\<rparr>, u'))
               else
                 (case Tex3DS_BufferRead callback
                         (b\<lparr>bsize := nat rc, bpos := 0, data := stored wr (data b)\<rparr>, u')
                         (n - length (resident b)) of
                    (ok, rest, input') \<Rightarrow> (ok, resident b @ rest, input')))"
    by simp
next
  from BufferRead_mem [OF assms, of bytes plan n]
  show "fst (Tex3DS_BufferRead callback_mem (b, (bytes, plan)) n)
          = (n \<le> length (resident b) + deliverable (limit b) bytes plan)"
    by auto
next
  assume "n \<le> length (resident b) + deliverable (limit b) bytes plan"
  with BufferRead_mem [OF assms, of bytes plan n]
  show "fst (snd (Tex3DS_BufferRead callback_mem (b, (bytes, plan)) n))
          = take n (resident b @ bytes)"
    by auto
next
  assume a: "0 < limit b \<and> list_all (\<lambda>c. 0 < c) plan \<and> n \<le> length (resident b) + length bytes"
  then have dv: "deliverable (limit b) bytes plan = length bytes"
    by (simp add: deliverable_partial_fills)
  from a have dv0: "deliverable (limit b) bytes [] = length bytes"
    by simp
  from a dv BufferRead_mem [OF assms, of bytes plan n]
  show "fst (Tex3DS_BufferRead callback_mem (b, (bytes, plan)) n)"
    by auto
  from a dv BufferRead_mem [OF assms, of bytes plan n]
  have "fst (snd (Tex3DS_BufferRead callback_mem (b, (bytes, plan)) n))
          = take n (resident b @ bytes)"
    by auto
  moreover from a dv0 BufferRead_mem [OF assms, of bytes "[]" n]
  have "fst (snd (Tex3DS_BufferRead callback_mem (b, (bytes, [])) n))
          = take n (resident b @ bytes)"
    by auto
  ultimately
  show "fst (snd (Tex3DS_BufferRead callback_mem (b, (bytes, plan)) n))
          = fst (snd (Tex3DS_BufferRead callback_mem (b, (bytes, [])) n))"
    by simp
qed

text \<open>
  The theorem at a buffer with the resident bytes 01 02 over a source that holds 03 .. 09 and
  fills two bytes, then one byte, then whole blocks: a request of one byte and one of six.
\<close>

theorem BufferRead_read_exact_witness:
  "wf_buffer \<lparr>data = [1, 2, 0, 0], limit = 4, bsize = 2, bpos = 0, total = 0\<rparr>
   \<and> Tex3DS_BufferRead callback_mem
         (\<lparr>data = [1, 2, 0, 0], limit = 4, bsize = 2, bpos = 0, total = 0\<rparr>,
          ([3, 4, 5, 6, 7, 8, 9], [2, 1])) 1
       = (True, [1], (\<lparr>data = [1, 2, 0, 0], limit = 4, bsize = 2, bpos = 1, total = 0\<rparr>,
          ([3, 4, 5, 6, 7, 8, 9], [2, 1])))
   \<and> fst (Tex3DS_BufferRead callback_mem
         (\<lparr>data = [1, 2, 0, 0], limit = 4, bsize = 2, bpos = 0, total = 0\<rparr>,
          ([3, 4, 5, 6, 7, 8, 9], [2, 1])) 6)
   \<and> fst (snd (Tex3DS_BufferRead callback_mem
         (\<lparr>data = [1, 2, 0, 0], limit = 4, bsize = 2, bpos = 0, total = 0\<rparr>,
          ([3, 4, 5, 6, 7, 8, 9], [2, 1])) 6)) = [1, 2, 3, 4, 5, 6]
   \<and> fst (snd (Tex3DS_BufferRead callback_mem
         (\<lparr>data = [1, 2, 0, 0], limit = 4, bsize = 2, bpos = 0, total = 0\<rparr>,
          ([3, 4, 5, 6, 7, 8, 9], [])) 6)) = [1, 2, 3, 4, 5, 6]
   \<and> \<not> fst (Tex3DS_BufferRead callback_mem
         (\<lparr>data = [1, 2, 0, 0], limit = 4, bsize = 2, bpos = 0, total = 0\<rparr>,
          ([3, 4, 5, 6, 7, 8, 9], [2, 0])) 6)"
proof -
  let ?b = "\<lparr>data = [1, 2, 0, 0], limit = 4, bsize = 2, bpos = 0, total = 0\<rparr>"
  let ?bytes = "[3, 4, 5, 6, 7, 8, 9] :: byte list"
  have wf: "wf_buffer ?b"
    by (simp add: wf_buffer_def)
  have res: "resident ?b = [1, 2]"
    by (simp add: resident_def bytes_at_def)
  note one = BufferRead_read_exact [OF wf, of 1 callback_mem "(?bytes, [2, 1])" ?bytes "[2, 1]"]
  note six = BufferRead_read_exact [OF wf, of 6 callback_mem "(?bytes, [2, 1])" ?bytes "[2, 1]"]
  note eof = BufferRead_read_exact [OF wf, of 6 callback_mem "(?bytes, [2, 0])" ?bytes "[2, 0]"]
  from one [THEN conjunct1]
  have "Tex3DS_BufferRead callback_mem (?b, (?bytes, [2, 1])) 1
          = (True, [1], (?b\<lparr>bpos := 1\<rparr>, (?bytes, [2, 1])))"
    by (simp add: res)
  moreover from six [THEN conjunct2, THEN conjunct2, THEN conjunct1]
  have "fst (Tex3DS_BufferRead callback_mem (?b, (?bytes, [2, 1])) 6)"
    by (simp add: res)
  moreover from six [THEN conjunct2, THEN conjunct2, THEN conjunct2, THEN conjunct1]
  have "fst (snd (Tex3DS_BufferRead callback_mem (?b, (?bytes, [2, 1])) 6)) = [1, 2, 3, 4, 5, 6]"
    by (simp add: res)
  moreover from six [THEN conjunct2, THEN conjunct2, THEN conjunct2, THEN conjunct2] this
  have "fst (snd (Tex3DS_BufferRead callback_mem (?b, (?bytes, [])) 6)) = [1, 2, 3, 4, 5, 6]"
    by (simp add: res)
  moreover from eof [THEN conjunct2, THEN conjunct2, THEN conjunct1]
  have "\<not> fst (Tex3DS_BufferRead callback_mem (?b, (?bytes, [2, 0])) 6)"
    by (simp add: res)
  ultimately show ?thesis
    using wf by simp
qed

section \<open>The output regions as one byte sequence\<close>

text \<open>
  The logical output is the concatenation of the regions. \<open>capacity\<close> is the sum of the
  region sizes, \<open>offset\<close> the position of an iterator in the logical output. An iterator is
  valid when it is one of the array (\<open>cnt\<close> regions) and points at a byte of a region; the
  regions are as expected when none of them is empty.
\<close>

definition capacity :: "Tex3DS_IOVec list \<Rightarrow> nat" where
  "capacity iov = sum_list (map length iov)"

definition offset :: "Tex3DS_IOVec list \<Rightarrow> iov_iter \<Rightarrow> nat" where
  "offset iov it = sum_list (take (num it) (map length iov)) + pos it"

definition valid_iter :: "Tex3DS_IOVec list \<Rightarrow> iov_iter \<Rightarrow> bool" where
  "valid_iter iov it =
     (cnt it = length (map length iov) \<and> num it < length (map length iov)
      \<and> pos it < map length iov ! num it)"

definition regions_ok :: "Tex3DS_IOVec list \<Rightarrow> bool" where
  "regions_ok iov = list_all (\<lambda>n. 0 < n) (map length iov)"

lemma length_concat_take:
  "length (concat (take n iov)) = sum_list (take n (map length iov))"
  by (simp add: length_concat take_map)

lemma same_sizes:
  assumes "map length iov' = map length iov"
  shows "capacity iov' = capacity iov" and "offset iov' it = offset iov it"
    and "valid_iter iov' it = valid_iter iov it" and "regions_ok iov' = regions_ok iov"
    and "length iov' = length iov"
  using assms map_eq_imp_length_eq [OF assms]
  by (simp_all add: capacity_def offset_def valid_iter_def regions_ok_def)

lemma same_sizes_nth:
  assumes "map length iov' = map length iov" and "n < length iov"
  shows "length (iov' ! n) = length (iov ! n)"
proof -
  from map_eq_imp_length_eq [OF assms(1)] assms(2) have "n < length iov'"
    by simp
  then have "length (iov' ! n) = map length iov' ! n" by simp
  also have "\<dots> = map length iov ! n" by (simp add: assms(1))
  also from assms(2) have "\<dots> = length (iov ! n)" by simp
  finally show ?thesis .
qed

lemma valid_iterD:
  assumes "valid_iter iov it"
  shows "cnt it = length iov" and "num it < length iov" and "pos it < length (iov ! num it)"
  using assms by (auto simp add: valid_iter_def)

lemma offset_lt_capacity:
  assumes "valid_iter iov it"
  shows "offset iov it + (length (iov ! num it) - pos it) \<le> capacity iov"
proof -
  from assms have n: "num it < length iov" and p: "pos it < length (iov ! num it)"
    by (simp_all add: valid_iterD)
  from n have "map length iov = take (num it) (map length iov) @ (map length iov ! num it)
                           # drop (Suc (num it)) (map length iov)"
    by (intro id_take_nth_drop) simp
  with n have "map length iov = take (num it) (map length iov) @ length (iov ! num it)
                           # drop (Suc (num it)) (map length iov)"
    by simp
  then have "capacity iov = sum_list (take (num it) (map length iov)) + length (iov ! num it)
                              + sum_list (drop (Suc (num it)) (map length iov))"
    unfolding capacity_def by (metis sum_list.Cons sum_list_append add.assoc)
  with p show ?thesis
    by (simp add: offset_def)
qed

lemma offset_next:
  assumes "num it < length iov"
  shows "offset iov (it\<lparr>num := num it + 1, pos := 0\<rparr>)
           = sum_list (take (num it) (map length iov)) + length (iov ! num it)"
  using assms by (simp add: offset_def take_Suc_conv_app_nth)

lemma last_region_end:
  assumes "valid_iter iov it" and "\<not> Suc (num it) < length iov"
  shows "offset iov it + (length (iov ! num it) - pos it) = capacity iov"
proof -
  from assms(1) have n: "num it < length iov" and p: "pos it < length (iov ! num it)"
    by (simp_all add: valid_iterD)
  from n assms(2) have l: "length iov = Suc (num it)"
    by simp
  from l have "map length iov = take (num it) (map length iov) @ [length (iov ! num it)]"
    by (metis n length_map lessI take_Suc_conv_app_nth take_all_iff le_refl nth_map)
  then have "capacity iov = sum_list (take (num it) (map length iov)) + length (iov ! num it)"
    unfolding capacity_def by (metis sum_list.Cons sum_list.Nil sum_list_append add_0_right)
  with p show ?thesis
    by (simp add: offset_def)
qed

lemma poke_bytes_sizes:
  assumes "n < length iov" and "p + length bs \<le> length (iov ! n)"
  shows "map length (poke_bytes iov (n, p) bs) = map length iov"
proof -
  from assms(2) have "length (take p (iov ! n) @ bs @ drop (p + length bs) (iov ! n))
                        = length (iov ! n)"
    by simp
  with assms(1) show ?thesis
    by (simp add: poke_bytes_def map_update list_update_same_conv)
qed

lemma concat_poke_bytes:
  assumes "n < length iov" and "p + length bs \<le> length (iov ! n)"
  shows "concat (poke_bytes iov (n, p) bs)
           = take (sum_list (take n (map length iov)) + p) (concat iov) @ bs
             @ drop (sum_list (take n (map length iov)) + p + length bs) (concat iov)"
proof -
  let ?A = "concat (take n iov)" and ?r = "iov ! n" and ?B = "concat (drop (Suc n) iov)"
  have lenA: "length ?A = sum_list (take n (map length iov))"
    by (rule length_concat_take)
  from assms(1) have whole: "concat iov = ?A @ ?r @ ?B"
    by (metis concat.simps(2) concat_append id_take_nth_drop)
  from assms(1) have "poke_bytes iov (n, p) bs
      = take n iov @ (take p ?r @ bs @ drop (p + length bs) ?r) # drop (Suc n) iov"
    by (simp add: poke_bytes_def upd_conv_take_nth_drop)
  then have "concat (poke_bytes iov (n, p) bs)
      = ?A @ take p ?r @ bs @ drop (p + length bs) ?r @ ?B"
    by simp
  moreover from assms(2) have "take (length ?A + p) (concat iov) = ?A @ take p ?r"
    by (simp add: whole)
  moreover from assms(2) have "drop (length ?A + p + length bs) (concat iov)
      = drop (p + length bs) ?r @ ?B"
    by (simp add: whole add.assoc)
  ultimately show ?thesis
    by (simp add: lenA)
qed

lemma iov_add_chunk:
  assumes "valid_iter iov it" and "bytes \<le> length (iov ! num it) - pos it"
  shows "iov_add iov it bytes =
           (if bytes < length (iov ! num it) - pos it then Inr (it\<lparr>pos := pos it + bytes\<rparr>)
            else if Suc (num it) < length iov then
              if iov ! Suc (num it) \<noteq> [] then Inr (it\<lparr>num := num it + 1, pos := 0\<rparr>)
              else Inl AssertionFailed
            else Inl OutOfBounds)"
proof -
  from assms(1) have c: "cnt it = length iov" and n: "num it < length iov"
    and p: "pos it < length (iov ! num it)"
    by (simp_all add: valid_iterD)
  show ?thesis
  proof (cases "bytes < length (iov ! num it) - pos it")
    case True
    with c n p show ?thesis
      by (subst iov_add.simps) simp
  next
    case False
    with assms(2) have eq: "bytes = length (iov ! num it) - pos it" by simp
    have "iov_add iov it bytes = iov_add iov (it\<lparr>num := num it + 1, pos := 0\<rparr>) 0"
      using c n p eq by (subst iov_add.simps) simp
    also have "\<dots> = (if Suc (num it) < length iov then
                        if iov ! Suc (num it) \<noteq> [] then Inr (it\<lparr>num := num it + 1, pos := 0\<rparr>)
                        else Inl AssertionFailed
                      else Inl OutOfBounds)"
      using c n by (subst iov_add.simps) auto
    finally show ?thesis
      using False by simp
  qed
qed

lemma overwrite_twice:
  assumes "length xs = k" and "a + k \<le> length c"
  shows "take (a + k) (take a c @ xs @ drop (a + k) c) = take a c @ xs"
    and "drop (a + k + j) (take a c @ xs @ drop (a + k) c) = drop (a + k + j) c"
proof -
  from assms have la: "length (take a c) = a" by simp
  from assms la show "take (a + k) (take a c @ xs @ drop (a + k) c) = take a c @ xs"
    by simp
  from assms la show "drop (a + k + j) (take a c @ xs @ drop (a + k) c) = drop (a + k + j) c"
    by (simp add: add.commute)
qed

lemma iov_addr_valid: "valid_iter iov it \<Longrightarrow> iov_addr iov it = Inr (num it, pos it)"
  by (simp add: iov_addr_def valid_iterD)

lemma regions_ok_nth: "regions_ok iov \<Longrightarrow> n < length iov \<Longrightarrow> iov ! n \<noteq> []"
  by (auto simp: regions_ok_def list_all_length)

lemma iov_memset_flat:
  assumes "regions_ok iov" and "valid_iter iov out" and "sz \<le> capacity iov - offset iov out"
  shows "\<exists>oc out' iov'. iov_memset iov out v sz = (oc, out', iov')
           \<and> concat iov' = take (offset iov out) (concat iov) @ replicate sz v
                             @ drop (offset iov out + sz) (concat iov)
           \<and> map length iov' = map length iov
           \<and> (if offset iov out + sz < capacity iov
               then oc = Success \<and> valid_iter iov' out' \<and> offset iov' out' = offset iov out + sz
               else oc = Abort OutOfBounds)"
  using assms
proof (induction sz arbitrary: iov out rule: less_induct)
  case (less sz)
  note ok = \<open>regions_ok iov\<close> and valid = \<open>valid_iter iov out\<close>
    and fits = \<open>sz \<le> capacity iov - offset iov out\<close>
  from valid have n: "num out < length iov" and p: "pos out < length (iov ! num out)"
    by (simp_all add: valid_iterD)
  define r where "r = length (iov ! num out) - pos out"
  from p have rpos: "0 < r" by (simp add: r_def)
  from offset_lt_capacity [OF valid] have room: "offset iov out + r \<le> capacity iov"
    by (simp add: r_def)
  have cap: "capacity iov = length (concat iov)"
    by (simp add: capacity_def length_concat)
  show ?case
  proof (cases "sz = 0")
    case True
    with room rpos valid show ?thesis
      by (subst iov_memset.simps) simp
  next
    case False
    define bytes where "bytes = (if sz < r then sz else r)"
    define iov1 where "iov1 = poke_bytes iov (num out, pos out) (replicate bytes v)"
    from False rpos have bpos: "0 < bytes" and ble: "bytes \<le> r" and bsz: "bytes \<le> sz"
      by (simp_all add: bytes_def)
    from ble p have inreg: "pos out + length (replicate bytes v) \<le> length (iov ! num out)"
      by (simp add: r_def)
    have sizes1: "map length iov1 = map length iov"
      unfolding iov1_def by (rule poke_bytes_sizes [OF n inreg])
    have flat1: "concat iov1 = take (offset iov out) (concat iov) @ replicate bytes v
                                 @ drop (offset iov out + bytes) (concat iov)"
      unfolding iov1_def using concat_poke_bytes [OF n inreg] by (simp add: offset_def)
    have valid1: "valid_iter iov1 out"
      using valid by (simp add: same_sizes(3) [OF sizes1])
    have len1: "length (iov1 ! num out) = length (iov ! num out)"
      by (rule same_sizes_nth [OF sizes1 n])
    have unfold: "iov_memset iov out v sz =
        (case iov_add iov1 out bytes of
           Inl f \<Rightarrow> (Abort f, out, iov1)
         | Inr out' \<Rightarrow> iov_memset iov1 out' v (sz - bytes))"
      unfolding iov1_def bytes_def r_def using False
      by (subst iov_memset.simps) (simp add: iov_addr_valid [OF valid] Let_def)
    from ble have ble1: "bytes \<le> length (iov1 ! num out) - pos out"
      by (simp add: len1 r_def)
    note add = iov_add_chunk [OF valid1 ble1]
    show ?thesis
    proof (cases "bytes < r")
      case True
      then have eq: "bytes = sz" by (simp add: bytes_def split: if_splits)
      from True have "iov_add iov1 out bytes = Inr (out\<lparr>pos := pos out + bytes\<rparr>)"
        using add by (simp add: len1 r_def)
      then have "iov_memset iov out v sz = (Success, out\<lparr>pos := pos out + bytes\<rparr>, iov1)"
        using unfold eq by (simp add: iov_memset.simps [of iov1 _ v 0])
      moreover from True have "valid_iter iov1 (out\<lparr>pos := pos out + bytes\<rparr>)"
        using valid1 by (simp add: valid_iter_def r_def len1 n same_sizes(5) [OF sizes1]) 
      moreover have "offset iov1 (out\<lparr>pos := pos out + bytes\<rparr>) = offset iov out + bytes"
        by (simp add: same_sizes(2) [OF sizes1]) (simp add: offset_def)
      moreover from True room have "offset iov out + bytes < capacity iov" by simp
      ultimately show ?thesis
        using flat1 sizes1 eq by simp
    next
      case False
      with ble have eq: "bytes = r" by simp
      show ?thesis
      proof (cases "Suc (num out) < length iov")
        case True
        define out1 where "out1 = out\<lparr>num := num out + 1, pos := 0\<rparr>"
        from True have nz: "iov1 ! Suc (num out) \<noteq> []"
          using regions_ok_nth [of iov1 "Suc (num out)"] ok
          by (simp add: same_sizes(4,5) [OF sizes1])
        from eq True nz have "iov_add iov1 out bytes = Inr out1"
          using add by (simp add: len1 r_def out1_def same_sizes(5) [OF sizes1])
        with unfold have step: "iov_memset iov out v sz = iov_memset iov1 out1 v (sz - r)"
          by (simp add: eq)
        have "offset iov1 out1 = offset iov out1"
          by (rule same_sizes(2) [OF sizes1])
        also have "\<dots> = offset iov out + r"
          using offset_next [OF n] p by (simp add: out1_def offset_def r_def)
        finally have off1: "offset iov1 out1 = offset iov out + r" .
        have valid_out1: "valid_iter iov1 out1"
          using valid True nz
          by (simp add: valid_iter_def out1_def same_sizes(5) [OF sizes1])
        have ok1: "regions_ok iov1" using ok by (simp add: same_sizes(4) [OF sizes1])
        have cap1: "capacity iov1 = capacity iov" by (rule same_sizes(1) [OF sizes1])
        from fits eq bsz have fits1: "sz - r \<le> capacity iov1 - offset iov1 out1"
          by (simp add: cap1 off1)
        from rpos eq bsz have "sz - r < sz" by simp
        from less.IH [OF this ok1 valid_out1 fits1]
        obtain oc out' iov' where
          r1: "iov_memset iov1 out1 v (sz - r) = (oc, out', iov')"
          and f1: "concat iov' = take (offset iov1 out1) (concat iov1) @ replicate (sz - r) v
                                   @ drop (offset iov1 out1 + (sz - r)) (concat iov1)"
          and s1: "map length iov' = map length iov1"
          and c1: "if offset iov1 out1 + (sz - r) < capacity iov1
                   then oc = Success \<and> valid_iter iov' out'
                        \<and> offset iov' out' = offset iov1 out1 + (sz - r)
                   else oc = Abort OutOfBounds"
          by blast
        from room have inlen: "offset iov out + r \<le> length (concat iov)"
          by (simp add: cap)
        have lr: "length (replicate r v) = r" by simp
        from eq bsz have szr: "offset iov out + r + (sz - r) = offset iov out + sz"
          by simp
        have "concat iov' = (take (offset iov out) (concat iov) @ replicate r v)
                 @ replicate (sz - r) v @ drop (offset iov out + sz) (concat iov)"
          using f1 overwrite_twice(1) [OF lr inlen] overwrite_twice(2) [OF lr inlen, of "sz - r"]
          by (simp add: off1 flat1 eq szr)
        also have "\<dots> = take (offset iov out) (concat iov) @ replicate sz v
                          @ drop (offset iov out + sz) (concat iov)"
          using eq bsz by (simp add: replicate_add [symmetric])
        finally have flat: "concat iov' = take (offset iov out) (concat iov) @ replicate sz v
                                            @ drop (offset iov out + sz) (concat iov)" .
        from c1 have "if offset iov out + sz < capacity iov
                      then oc = Success \<and> valid_iter iov' out'
                           \<and> offset iov' out' = offset iov out + sz
                      else oc = Abort OutOfBounds"
          by (simp add: off1 cap1 szr)
        with step r1 flat s1 sizes1 show ?thesis
          by simp
      next
        case last: False
        from eq last have "iov_add iov1 out bytes = Inl OutOfBounds"
          using add by (simp add: len1 r_def same_sizes(5) [OF sizes1])
        with unfold have res: "iov_memset iov out v sz = (Abort OutOfBounds, out, iov1)"
          by simp
        from last_region_end [OF valid last] have "offset iov out + r = capacity iov"
          by (simp add: r_def)
        with fits eq bsz have "sz = bytes" and "\<not> offset iov out + sz < capacity iov"
          by simp_all
        with res flat1 sizes1 show ?thesis
          by simp
      qed
    qed
  qed
qed

lemma iov_read_flat:
  assumes "regions_ok iov" and "valid_iter iov out" and "sz \<le> capacity iov - offset iov out"
    and "ready input" and "sz \<le> length (pending input)"
  shows "\<exists>oc out' iov' input'. iov_read callback_mem input iov out sz = (oc, out', iov', input')
           \<and> concat iov' = take (offset iov out) (concat iov) @ take sz (pending input)
                             @ drop (offset iov out + sz) (concat iov)
           \<and> map length iov' = map length iov
           \<and> ready input' \<and> pending input' = drop sz (pending input)
           \<and> (if offset iov out + sz < capacity iov
               then oc = Success \<and> valid_iter iov' out' \<and> offset iov' out' = offset iov out + sz
               else oc = Abort OutOfBounds)"
  using assms
proof (induction sz arbitrary: iov out input rule: less_induct)
  case (less sz)
  note ok = \<open>regions_ok iov\<close> and valid = \<open>valid_iter iov out\<close>
    and fits = \<open>sz \<le> capacity iov - offset iov out\<close>
    and rdy = \<open>ready input\<close> and enough = \<open>sz \<le> length (pending input)\<close>
  from valid have n: "num out < length iov" and p: "pos out < length (iov ! num out)"
    by (simp_all add: valid_iterD)
  define r where "r = length (iov ! num out) - pos out"
  from p have rpos: "0 < r" by (simp add: r_def)
  from offset_lt_capacity [OF valid] have room: "offset iov out + r \<le> capacity iov"
    by (simp add: r_def)
  have cap: "capacity iov = length (concat iov)"
    by (simp add: capacity_def length_concat)
  show ?case
  proof (cases "sz = 0")
    case True
    with room rpos valid rdy show ?thesis
      by (subst iov_read.simps) simp
  next
    case False
    define bytes where "bytes = (if sz < r then sz else r)"
    define got where "got = take bytes (pending input)"
    define iov1 where "iov1 = poke_bytes iov (num out, pos out) got"
    from False rpos have bpos: "0 < bytes" and ble: "bytes \<le> r" and bsz: "bytes \<le> sz"
      by (simp_all add: bytes_def)
    from bsz enough have lgot: "length got = bytes"
      by (simp add: got_def)
    from bsz enough have "bytes \<le> length (pending input)" by simp
    from BufferRead_ready [OF rdy this]
    obtain input1 where rd: "Tex3DS_BufferRead callback_mem input bytes = (True, got, input1)"
      and rdy1: "ready input1" and pend1: "pending input1 = drop bytes (pending input)"
      by (auto simp: got_def)
    from ble p have inreg: "pos out + length got \<le> length (iov ! num out)"
      by (simp add: r_def lgot)
    have sizes1: "map length iov1 = map length iov"
      unfolding iov1_def by (rule poke_bytes_sizes [OF n inreg])
    have flat1: "concat iov1 = take (offset iov out) (concat iov) @ got
                                 @ drop (offset iov out + bytes) (concat iov)"
      unfolding iov1_def using concat_poke_bytes [OF n inreg] by (simp add: offset_def lgot)
    have valid1: "valid_iter iov1 out"
      using valid by (simp add: same_sizes(3) [OF sizes1])
    have len1: "length (iov1 ! num out) = length (iov ! num out)"
      by (rule same_sizes_nth [OF sizes1 n])
    have "iov_read callback_mem input iov out sz =
        (case Tex3DS_BufferRead callback_mem input bytes of
           (ok, got, input') \<Rightarrow>
             if \<not> ok then (Failure, out, poke_bytes iov (num out, pos out) got, input')
             else (case iov_add (poke_bytes iov (num out, pos out) got) out bytes of
                     Inl f \<Rightarrow> (Abort f, out, poke_bytes iov (num out, pos out) got, input')
                   | Inr out' \<Rightarrow>
                       iov_read callback_mem input' (poke_bytes iov (num out, pos out) got) out'
                         (sz - bytes)))"
      unfolding bytes_def r_def using False
      by (subst iov_read.simps) (simp add: iov_addr_valid [OF valid] Let_def)
    then have unfold: "iov_read callback_mem input iov out sz =
        (case iov_add iov1 out bytes of
           Inl f \<Rightarrow> (Abort f, out, iov1, input1)
         | Inr out' \<Rightarrow> iov_read callback_mem input1 iov1 out' (sz - bytes))"
      unfolding iov1_def by (simp add: rd)
    from ble have ble1: "bytes \<le> length (iov1 ! num out) - pos out"
      by (simp add: len1 r_def)
    note add = iov_add_chunk [OF valid1 ble1]
    show ?thesis
    proof (cases "bytes < r")
      case True
      then have eq: "bytes = sz" by (simp add: bytes_def split: if_splits)
      from True have "iov_add iov1 out bytes = Inr (out\<lparr>pos := pos out + bytes\<rparr>)"
        using add by (simp add: len1 r_def)
      then have "iov_read callback_mem input iov out sz
                   = (Success, out\<lparr>pos := pos out + bytes\<rparr>, iov1, input1)"
        using unfold eq by (simp add: iov_read.simps [of callback_mem input1 iov1 _ 0])
      moreover from True have "valid_iter iov1 (out\<lparr>pos := pos out + bytes\<rparr>)"
        using valid1 by (simp add: valid_iter_def r_def len1 n same_sizes(5) [OF sizes1])
      moreover have "offset iov1 (out\<lparr>pos := pos out + bytes\<rparr>) = offset iov out + bytes"
        by (simp add: same_sizes(2) [OF sizes1]) (simp add: offset_def)
      moreover from True room have "offset iov out + bytes < capacity iov" by simp
      ultimately show ?thesis
        using flat1 sizes1 eq rdy1 pend1 by (simp add: got_def)
    next
      case False
      with ble have eq: "bytes = r" by simp
      show ?thesis
      proof (cases "Suc (num out) < length iov")
        case True
        define out1 where "out1 = out\<lparr>num := num out + 1, pos := 0\<rparr>"
        from True have nz: "iov1 ! Suc (num out) \<noteq> []"
          using regions_ok_nth [of iov1 "Suc (num out)"] ok
          by (simp add: same_sizes(4,5) [OF sizes1])
        from eq True nz have "iov_add iov1 out bytes = Inr out1"
          using add by (simp add: len1 r_def out1_def same_sizes(5) [OF sizes1])
        with unfold have step: "iov_read callback_mem input iov out sz
                                  = iov_read callback_mem input1 iov1 out1 (sz - r)"
          by (simp add: eq)
        have "offset iov1 out1 = offset iov out1"
          by (rule same_sizes(2) [OF sizes1])
        also have "\<dots> = offset iov out + r"
          using offset_next [OF n] p by (simp add: out1_def offset_def r_def)
        finally have off1: "offset iov1 out1 = offset iov out + r" .
        have valid_out1: "valid_iter iov1 out1"
          using valid True nz
          by (simp add: valid_iter_def out1_def same_sizes(5) [OF sizes1])
        have ok1: "regions_ok iov1" using ok by (simp add: same_sizes(4) [OF sizes1])
        have cap1: "capacity iov1 = capacity iov" by (rule same_sizes(1) [OF sizes1])
        from fits eq bsz have fits1: "sz - r \<le> capacity iov1 - offset iov1 out1"
          by (simp add: cap1 off1)
        from enough eq have enough1: "sz - r \<le> length (pending input1)"
          by (simp add: pend1)
        from rpos eq bsz have "sz - r < sz" by simp
        from less.IH [OF this ok1 valid_out1 fits1 rdy1 enough1]
        obtain oc out' iov' input' where
          r1: "iov_read callback_mem input1 iov1 out1 (sz - r) = (oc, out', iov', input')"
          and f1: "concat iov' = take (offset iov1 out1) (concat iov1)
                                   @ take (sz - r) (pending input1)
                                   @ drop (offset iov1 out1 + (sz - r)) (concat iov1)"
          and s1: "map length iov' = map length iov1"
          and i1: "ready input'" "pending input' = drop (sz - r) (pending input1)"
          and c1: "if offset iov1 out1 + (sz - r) < capacity iov1
                   then oc = Success \<and> valid_iter iov' out'
                        \<and> offset iov' out' = offset iov1 out1 + (sz - r)
                   else oc = Abort OutOfBounds"
          by blast
        from room have inlen: "offset iov out + r \<le> length (concat iov)"
          by (simp add: cap)
        from lgot eq have lr: "length got = r" by simp
        from eq bsz have szr: "offset iov out + r + (sz - r) = offset iov out + sz"
          by simp
        have mid: "got @ take (sz - r) (drop r (pending input)) = take sz (pending input)"
          using eq bsz take_add [of r "sz - r" "pending input"] by (simp add: got_def)
        have "concat iov' = take (offset iov out) (concat iov)
                 @ (got @ take (sz - r) (drop r (pending input)))
                 @ drop (offset iov out + sz) (concat iov)"
          using f1 overwrite_twice(1) [OF lr inlen] overwrite_twice(2) [OF lr inlen, of "sz - r"]
          by (simp add: off1 flat1 eq szr pend1)
        then have flat: "concat iov' = take (offset iov out) (concat iov)
                              @ take sz (pending input) @ drop (offset iov out + sz) (concat iov)"
          by (simp only: mid)
        from c1 have "if offset iov out + sz < capacity iov
                      then oc = Success \<and> valid_iter iov' out'
                           \<and> offset iov' out' = offset iov out + sz
                      else oc = Abort OutOfBounds"
          by (simp add: off1 cap1 szr)
        moreover from i1(2) eq bsz have "pending input' = drop sz (pending input)"
          by (simp add: pend1)
        ultimately show ?thesis
          using step r1 flat s1 sizes1 i1(1) by simp
      next
        case last: False
        from eq last have "iov_add iov1 out bytes = Inl OutOfBounds"
          using add by (simp add: len1 r_def same_sizes(5) [OF sizes1])
        with unfold
        have res: "iov_read callback_mem input iov out sz = (Abort OutOfBounds, out, iov1, input1)"
          by simp
        from last_region_end [OF valid last] have "offset iov out + r = capacity iov"
          by (simp add: r_def)
        with fits eq bsz have "sz = bytes" and "\<not> offset iov out + sz < capacity iov"
          by simp_all
        with res flat1 sizes1 rdy1 pend1 show ?thesis
          by (simp add: got_def)
      qed
    qed
  qed
qed

section \<open>Claims about the decode strategies\<close>

text \<open>
  \<open>emitted iov out bs iov'\<close>: the memory \<open>iov'\<close> is \<open>iov\<close> with the bytes \<open>bs\<close> written into
  the logical output from the position of \<open>out\<close> on; every other byte is as it was, and so
  is the size of every region.
\<close>

definition emitted ::
  "Tex3DS_IOVec list \<Rightarrow> iov_iter \<Rightarrow> byte list \<Rightarrow> Tex3DS_IOVec list \<Rightarrow> bool" where
  "emitted iov out bs iov' =
     (concat iov' = take (offset iov out) (concat iov) @ bs
                      @ drop (offset iov out + length bs) (concat iov)
      \<and> map length iov' = map length iov)"

lemma replicate_numeral: "replicate (numeral v) x = x # replicate (numeral v - 1) x"
  by (simp add: numeral_eq_Suc)

lemma list_update_Cons_numeral: "(x # xs)[numeral v := y] = x # xs[numeral v - 1 := y]"
  by (simp add: numeral_eq_Suc)

text \<open>The equations that evaluate a run of the decoder on given bytes.\<close>

lemmas eval_simps = replicate_numeral list_update_Cons_numeral
  Tex3DS_DecompressV_def Tex3DS_BufferRead.simps Tex3DS_BufferGet_def bytes_at_def stored_def
  header_size_def header_size_ext_def decode_kind_def iov_size_def SIZE_MAX_def iov_begin_def
  iov_addr_def iov_add.simps iov_sub.simps iov_increment_def poke_def peek_def poke_bytes_def
  Let_def

lemma rle_run:
  assumes "regions_ok iov" and "valid_iter iov out" and "0 < sz"
    and "sz \<le> capacity iov - offset iov out" and "ready input"
    and "pending input = c # v # rest" and "c AND 0x80 \<noteq> 0"
    and "len = min (unat (c AND 0x7F) + 3) sz"
  shows "\<exists>out' iov' input'.
           emitted iov out (replicate len v) iov' \<and> ready input' \<and> pending input' = rest
           \<and> rle_loop callback_mem input iov out sz =
               (if offset iov out + len < capacity iov
                then rle_loop callback_mem input' iov' out' (sz - len)
                else (Abort OutOfBounds, iov', input'))
           \<and> (offset iov out + len < capacity iov \<longrightarrow>
                 valid_iter iov' out' \<and> offset iov' out' = offset iov out + len)"
proof -
  from BufferGet_ready [OF assms(5,6)]
  obtain input1 where g1: "Tex3DS_BufferGet callback_mem input = (Some c, input1)"
    and r1: "ready input1" and p1: "pending input1 = v # rest"
    by blast
  from BufferGet_ready [OF r1 p1]
  obtain input2 where g2: "Tex3DS_BufferGet callback_mem input1 = (Some v, input2)"
    and r2: "ready input2" and p2: "pending input2 = rest"
    by blast
  have len: "len = (if sz < unat (c AND 0x7F) + 3 then sz else unat (c AND 0x7F) + 3)"
    by (simp add: assms(8) min_def)
  from assms(4,8) have "len \<le> capacity iov - offset iov out" by simp
  from iov_memset_flat [OF assms(1,2) this, of v]
  obtain oc out' iov' where m: "iov_memset iov out v len = (oc, out', iov')"
    and f: "concat iov' = take (offset iov out) (concat iov) @ replicate len v
                            @ drop (offset iov out + len) (concat iov)"
    and s: "map length iov' = map length iov"
    and c: "if offset iov out + len < capacity iov
            then oc = Success \<and> valid_iter iov' out' \<and> offset iov' out' = offset iov out + len
            else oc = Abort OutOfBounds"
    by blast
  have "rle_loop callback_mem input iov out sz =
          (if oc = Success then rle_loop callback_mem input2 iov' out' (sz - len)
           else (oc, iov', input2))"
    using assms(3,7) by (subst rle_loop.simps) (simp add: g1 g2 len [symmetric] m Let_def)
  with c have "rle_loop callback_mem input iov out sz =
                 (if offset iov out + len < capacity iov
                  then rle_loop callback_mem input2 iov' out' (sz - len)
                  else (Abort OutOfBounds, iov', input2))"
    by (simp split: if_splits)
  with f s r2 p2 c show ?thesis
    unfolding emitted_def by (intro exI [of _ out'] exI [of _ iov'] exI [of _ input2]) simp
qed

lemma rle_literal:
  assumes "regions_ok iov" and "valid_iter iov out" and "0 < sz"
    and "sz \<le> capacity iov - offset iov out" and "ready input"
    and "pending input = c # rest" and "c AND 0x80 = 0"
    and "len = min (unat (c AND 0x7F) + 1) sz" and "len \<le> length rest"
  shows "\<exists>out' iov' input'.
           emitted iov out (take len rest) iov' \<and> ready input' \<and> pending input' = drop len rest
           \<and> rle_loop callback_mem input iov out sz =
               (if offset iov out + len < capacity iov
                then rle_loop callback_mem input' iov' out' (sz - len)
                else (Abort OutOfBounds, iov', input'))
           \<and> (offset iov out + len < capacity iov \<longrightarrow>
                 valid_iter iov' out' \<and> offset iov' out' = offset iov out + len)"
proof -
  from BufferGet_ready [OF assms(5,6)]
  obtain input1 where g1: "Tex3DS_BufferGet callback_mem input = (Some c, input1)"
    and r1: "ready input1" and p1: "pending input1 = rest"
    by blast
  have len: "len = (if sz < unat (c AND 0x7F) + 1 then sz else unat (c AND 0x7F) + 1)"
    by (simp add: assms(8) min_def)
  from assms(4,8) have fits: "len \<le> capacity iov - offset iov out" by simp
  from assms(9) have "len \<le> length (pending input1)" by (simp add: p1)
  from iov_read_flat [OF assms(1,2) fits r1 this]
  obtain oc out' iov' input2 where
    m: "iov_read callback_mem input1 iov out len = (oc, out', iov', input2)"
    and f: "concat iov' = take (offset iov out) (concat iov) @ take len rest
                            @ drop (offset iov out + len) (concat iov)"
    and s: "map length iov' = map length iov"
    and r2: "ready input2" and p2: "pending input2 = drop len rest"
    and c: "if offset iov out + len < capacity iov
            then oc = Success \<and> valid_iter iov' out' \<and> offset iov' out' = offset iov out + len
            else oc = Abort OutOfBounds"
    unfolding p1 by blast
  have "rle_loop callback_mem input iov out sz =
          (if oc = Success then rle_loop callback_mem input2 iov' out' (sz - len)
           else (oc, iov', input2))"
  proof (cases "sz < unat (c AND 0x7F) + 1")
    case True
    with len have "len = sz" by simp
    with True assms(3,7) m show ?thesis
      by (subst rle_loop.simps) (simp add: g1 Let_def)
  next
    case False
    with len have "len = unat (c AND 0x7F) + 1" by simp
    with False assms(3,7) m show ?thesis
      by (subst rle_loop.simps) (simp add: g1 Let_def)
  qed
  with c have "rle_loop callback_mem input iov out sz =
                 (if offset iov out + len < capacity iov
                  then rle_loop callback_mem input2 iov' out' (sz - len)
                  else (Abort OutOfBounds, iov', input2))"
    by (simp split: if_splits)
  moreover from assms(9) have "length (take len rest) = len" by simp
  ultimately show ?thesis
    using f s r2 p2 c
    unfolding emitted_def by (intro exI [of _ out'] exI [of _ iov'] exI [of _ input2]) simp
qed

text \<open>
  C6: a round of \<^verbatim>\<open>rle_decode\<close> with \<^verbatim>\<open>size > 0\<close> left, on a valid output position with room
  for \<^verbatim>\<open>size\<close> bytes, over an input that does not fail. \<open>c\<close> is the control byte.
  \<^item> High bit set: \<open>min ((c & 0x7F) + 3) size\<close> copies of the next input byte are written at
    the output position.
  \<^item> High bit clear: the next \<open>min ((c & 0x7F) + 1) size\<close> input bytes are written there.
  In both cases nothing else of the output changes, the input has moved past the bytes used,
  and the loop goes on with \<^verbatim>\<open>size\<close> reduced by that count from the position behind the bytes
  written. (When the bytes written end at the very end of the last region, the bytes are
  written as well, and the run then stops in \<^verbatim>\<open>iov_add\<close>, which evaluates the region behind
  the last one.)
  \<^item> The stream 30 05 00 00 82 FF decodes to FF FF FF FF FF, and 30 03 00 00 02 AA BB CC
    decodes to AA BB CC, here across two regions.
\<close>

theorem rle_decode_step:
  assumes "regions_ok iov" and "valid_iter iov out" and "0 < sz"
    and "sz \<le> capacity iov - offset iov out" and "ready input"
    and "pending input = c # rest"
  shows "(c AND 0x80 \<noteq> 0 \<and> rest \<noteq> [] \<longrightarrow>
            (\<exists>out' iov' input'.
               emitted iov out (replicate (min (unat (c AND 0x7F) + 3) sz) (hd rest)) iov'
               \<and> ready input' \<and> pending input' = tl rest
               \<and> rle_loop callback_mem input iov out sz =
                   (if offset iov out + min (unat (c AND 0x7F) + 3) sz < capacity iov
                    then rle_loop callback_mem input' iov' out'
                           (sz - min (unat (c AND 0x7F) + 3) sz)
                    else (Abort OutOfBounds, iov', input'))
               \<and> (offset iov out + min (unat (c AND 0x7F) + 3) sz < capacity iov \<longrightarrow>
                     valid_iter iov' out'
                     \<and> offset iov' out' = offset iov out + min (unat (c AND 0x7F) + 3) sz)))
       \<and> (c AND 0x80 = 0 \<and> min (unat (c AND 0x7F) + 1) sz \<le> length rest \<longrightarrow>
            (\<exists>out' iov' input'.
               emitted iov out (take (min (unat (c AND 0x7F) + 1) sz) rest) iov'
               \<and> ready input' \<and> pending input' = drop (min (unat (c AND 0x7F) + 1) sz) rest
               \<and> rle_loop callback_mem input iov out sz =
                   (if offset iov out + min (unat (c AND 0x7F) + 1) sz < capacity iov
                    then rle_loop callback_mem input' iov' out'
                           (sz - min (unat (c AND 0x7F) + 1) sz)
                    else (Abort OutOfBounds, iov', input'))
               \<and> (offset iov out + min (unat (c AND 0x7F) + 1) sz < capacity iov \<longrightarrow>
                     valid_iter iov' out'
                     \<and> offset iov' out' = offset iov out + min (unat (c AND 0x7F) + 1) sz)))
       \<and> (case Tex3DS_DecompressV callback_mem
                 (\<lparr>data = [0, 0, 0, 0], limit = 4, bsize = 0, bpos = 0, total = 0\<rparr>,
                  ([0x30, 5, 0, 0, 0x82, 0xFF], []))
                 [[0, 0, 0, 0, 0, 0, 0, 0]] None of
             (oc, iov', input') \<Rightarrow>
               oc = Success \<and> iov' = [[0xFF, 0xFF, 0xFF, 0xFF, 0xFF, 0, 0, 0]])
       \<and> (case Tex3DS_DecompressV callback_mem
                 (\<lparr>data = [0, 0, 0, 0], limit = 4, bsize = 0, bpos = 0, total = 0\<rparr>,
                  ([0x30, 3, 0, 0, 0x02, 0xAA, 0xBB, 0xCC], []))
                 [[0, 0], [0, 0]] None of
             (oc, iov', input') \<Rightarrow> oc = Success \<and> iov' = [[0xAA, 0xBB], [0xCC, 0]])"
proof (intro conjI impI)
  assume "c AND 0x80 \<noteq> 0 \<and> rest \<noteq> []"
  then have hi: "c AND 0x80 \<noteq> 0" and p: "pending input = c # hd rest # tl rest"
    using assms(6) by simp_all
  from rle_run [OF assms(1-5) p hi refl]
  show "\<exists>out' iov' input'.
          emitted iov out (replicate (min (unat (c AND 0x7F) + 3) sz) (hd rest)) iov'
          \<and> ready input' \<and> pending input' = tl rest
          \<and> rle_loop callback_mem input iov out sz =
              (if offset iov out + min (unat (c AND 0x7F) + 3) sz < capacity iov
               then rle_loop callback_mem input' iov' out' (sz - min (unat (c AND 0x7F) + 3) sz)
               else (Abort OutOfBounds, iov', input'))
          \<and> (offset iov out + min (unat (c AND 0x7F) + 3) sz < capacity iov \<longrightarrow>
                valid_iter iov' out'
                \<and> offset iov' out' = offset iov out + min (unat (c AND 0x7F) + 3) sz)" .
next
  assume "c AND 0x80 = 0 \<and> min (unat (c AND 0x7F) + 1) sz \<le> length rest"
  then have lo: "c AND 0x80 = 0" and l: "min (unat (c AND 0x7F) + 1) sz \<le> length rest"
    by simp_all
  from rle_literal [OF assms(1-6) lo refl l]
  show "\<exists>out' iov' input'.
          emitted iov out (take (min (unat (c AND 0x7F) + 1) sz) rest) iov'
          \<and> ready input' \<and> pending input' = drop (min (unat (c AND 0x7F) + 1) sz) rest
          \<and> rle_loop callback_mem input iov out sz =
              (if offset iov out + min (unat (c AND 0x7F) + 1) sz < capacity iov
               then rle_loop callback_mem input' iov' out' (sz - min (unat (c AND 0x7F) + 1) sz)
               else (Abort OutOfBounds, iov', input'))
          \<and> (offset iov out + min (unat (c AND 0x7F) + 1) sz < capacity iov \<longrightarrow>
                valid_iter iov' out'
                \<and> offset iov' out' = offset iov out + min (unat (c AND 0x7F) + 1) sz)" .
next
  show "case Tex3DS_DecompressV callback_mem
               (\<lparr>data = [0, 0, 0, 0], limit = 4, bsize = 0, bpos = 0, total = 0\<rparr>,
                ([0x30, 5, 0, 0, 0x82, 0xFF], []))
               [[0, 0, 0, 0, 0, 0, 0, 0]] None of
          (oc, iov', input') \<Rightarrow>
            oc = Success \<and> iov' = [[0xFF, 0xFF, 0xFF, 0xFF, 0xFF, 0, 0, 0]]"
    by (simp add: eval_simps rle_decode_def rle_loop.simps iov_memset.simps)
next
  show "case Tex3DS_DecompressV callback_mem
               (\<lparr>data = [0, 0, 0, 0], limit = 4, bsize = 0, bpos = 0, total = 0\<rparr>,
                ([0x30, 3, 0, 0, 0x02, 0xAA, 0xBB, 0xCC], []))
               [[0, 0], [0, 0]] None of
          (oc, iov', input') \<Rightarrow> oc = Success \<and> iov' = [[0xAA, 0xBB], [0xCC, 0]]"
    by (simp add: eval_simps rle_decode_def rle_loop.simps iov_read.simps)
qed

text \<open>
  The theorem at the run 82 FF with 5 bytes to go, into one region of 6 bytes, and at the
  literal block 02 AA BB CC with 3 bytes to go, into two regions of 2 bytes.
\<close>

theorem rle_decode_step_witness:
  "(\<exists>out' iov' input'.
      concat iov' = [0xFF, 0xFF, 0xFF, 0xFF, 0xFF, 0] \<and> pending input' = []
      \<and> rle_loop callback_mem
           (\<lparr>data = [0, 0, 0, 0], limit = 4, bsize = 0, bpos = 0, total = 0\<rparr>, ([0x82, 0xFF], []))
           [[0, 0, 0, 0, 0, 0]] \<lparr>cnt = 1, num = 0, pos = 0\<rparr> 5
         = rle_loop callback_mem input' iov' out' 0)
   \<and> (\<exists>out' iov' input'.
        concat iov' = [0xAA, 0xBB, 0xCC, 0] \<and> pending input' = []
        \<and> rle_loop callback_mem
             (\<lparr>data = [0, 0, 0, 0], limit = 4, bsize = 0, bpos = 0, total = 0\<rparr>,
              ([0x02, 0xAA, 0xBB, 0xCC], []))
             [[0, 0], [0, 0]] \<lparr>cnt = 2, num = 0, pos = 0\<rparr> 3
           = rle_loop callback_mem input' iov' out' 0)"
proof -
  let ?b = "\<lparr>data = [0, 0, 0, 0], limit = 4, bsize = 0, bpos = 0, total = 0\<rparr>"
  have rdy: "ready (?b, (bytes, []))" for bytes
    by (simp add: ready_def wf_buffer_def)
  have pend: "pending (?b, (bytes, [])) = bytes" for bytes
    by (simp add: pending_def resident_def bytes_at_def)
  let ?iov1 = "[[0, 0, 0, 0, 0, 0]] :: Tex3DS_IOVec list"
  let ?out1 = "\<lparr>cnt = 1, num = 0, pos = 0\<rparr>"
  have a1: "regions_ok ?iov1" "valid_iter ?iov1 ?out1" "(0::nat) < 5"
    "5 \<le> capacity ?iov1 - offset ?iov1 ?out1"
    by (simp_all add: regions_ok_def valid_iter_def capacity_def offset_def)
  have v1: "unat ((0x82 :: byte) AND 0x7F) = 2" by simp
  from rle_decode_step [where c = "0x82" and rest = "[0xFF]", OF a1 rdy pend, THEN conjunct1]
  have "\<exists>out' iov' input'.
          concat iov' = [0xFF, 0xFF, 0xFF, 0xFF, 0xFF, 0] \<and> pending input' = []
          \<and> rle_loop callback_mem (?b, ([0x82, 0xFF], [])) ?iov1 ?out1 5
              = rle_loop callback_mem input' iov' out' 0"
    by (simp add: emitted_def offset_def capacity_def v1 replicate_numeral) blast
  moreover
  let ?iov2 = "[[0, 0], [0, 0]] :: Tex3DS_IOVec list"
  let ?out2 = "\<lparr>cnt = 2, num = 0, pos = 0\<rparr>"
  have a2: "regions_ok ?iov2" "valid_iter ?iov2 ?out2" "(0::nat) < 3"
    "3 \<le> capacity ?iov2 - offset ?iov2 ?out2"
    by (simp_all add: regions_ok_def valid_iter_def capacity_def offset_def)
  have v2: "unat ((0x02 :: byte) AND 0x7F) = 2" by simp
  from rle_decode_step [where c = "0x02" and rest = "[0xAA, 0xBB, 0xCC]", OF a2 rdy pend,
      THEN conjunct2, THEN conjunct1]
  have "\<exists>out' iov' input'.
          concat iov' = [0xAA, 0xBB, 0xCC, 0] \<and> pending input' = []
          \<and> rle_loop callback_mem (?b, ([0x02, 0xAA, 0xBB, 0xCC], [])) ?iov2 ?out2 3
              = rle_loop callback_mem input' iov' out' 0"
    by (simp add: emitted_def offset_def capacity_def v2) blast
  ultimately show ?thesis by simp
qed

text \<open>
  What \<^verbatim>\<open>lz11_decode\<close> does with a compressed block once \<^verbatim>\<open>len\<close> and \<^verbatim>\<open>disp\<close> are assembled:
  the statements from \<^verbatim>\<open>if(len > size)\<close> to the end of the round.
\<close>

definition lz11_block ::
  "'u Tex3DS_DataCallback \<Rightarrow> 'u input \<Rightarrow> Tex3DS_IOVec list \<Rightarrow> iov_iter \<Rightarrow> nat \<Rightarrow> byte \<Rightarrow> nat
     \<Rightarrow> nat \<Rightarrow> nat \<Rightarrow> outcome \<times> Tex3DS_IOVec list \<times> 'u input" where
  "lz11_block callback input iov out i flags sz len0 disp =
     (case iov_sub iov out (disp + 1) of
        Inl f \<Rightarrow> (Abort f, iov, input)
      | Inr inp \<Rightarrow>
          (case iov_memmove iov out inp (sz - (if len0 > sz then sz else len0)) of
             (oc, out', inp', iov') \<Rightarrow>
               if oc = Success then
                 lz11_loop callback input iov' out' (i + 1) (push_bit 1 flags)
                   (sz - (if len0 > sz then sz else len0))
               else (oc, iov', input)))"

lemma lz11_loop_block:
  assumes "i < 8" and "0 < sz" and "flags AND 0x80 \<noteq> 0"
    and "Tex3DS_BufferGet callback input = (Some d0, input1)"
    and "lz11_displen callback input1 d0 = (Some (len0, disp), input2)"
  shows "lz11_loop callback input iov out i flags sz
           = lz11_block callback input2 iov out i flags sz len0 disp"
  using assms by (subst lz11_loop.simps) (simp add: lz11_block_def Let_def)

lemma unat_low_nibble: "unat ((d :: byte) AND 0x0F) = unat d AND 0x0F"
  by (simp add: unsigned_and_eq)

lemma unat_high_nibble: "unat (drop_bit 4 (d :: byte)) = drop_bit 4 (unat d)"
  by (simp add: unat_drop_bit_eq)

text \<open>
  C7: a compressed block of \<^verbatim>\<open>lz11_decode\<close> (a round of the inner loop with the flag bit set)
  on an input that does not fail, \<open>b0\<close> being the first header byte and \<open>rest\<close> the bytes
  after it.
  \<^item> Top nibble 0: three header bytes are used, the length is \<open>(b0 << 4 | b1 >> 4) + 0x11\<close>
    and the displacement \<open>(b1 & 0x0F) << 8 | b2\<close>.
  \<^item> Top nibble 1: four header bytes are used, the length is
    \<open>((b0 & 0x0F) << 12 | b1 << 4 | b2 >> 4) + 0x111\<close> and the displacement
    \<open>(b2 & 0x0F) << 8 | b3\<close>.
  \<^item> Any other nibble: two header bytes are used, the length is \<open>(b0 >> 4) + 1\<close> and the
    displacement \<open>(b0 & 0x0F) << 8 | b1\<close>.
  The round goes on from the input behind the header with that length and displacement.
\<close>

theorem lz11_block_header:
  assumes "ready input" and "pending input = b0 # rest"
    and "i < 8" and "0 < sz" and "flags AND 0x80 \<noteq> 0"
  shows "(drop_bit 4 b0 = 0 \<and> 2 \<le> length rest \<longrightarrow>
            (\<exists>input'. ready input' \<and> pending input' = drop 2 rest
               \<and> lz11_loop callback_mem input iov out i flags sz =
                   lz11_block callback_mem input' iov out i flags sz
                     ((push_bit 4 (unat b0) OR drop_bit 4 (unat (rest ! 0))) + 0x11)
                     (push_bit 8 (unat (rest ! 0) AND 0x0F) OR unat (rest ! 1))))
       \<and> (drop_bit 4 b0 = 1 \<and> 3 \<le> length rest \<longrightarrow>
            (\<exists>input'. ready input' \<and> pending input' = drop 3 rest
               \<and> lz11_loop callback_mem input iov out i flags sz =
                   lz11_block callback_mem input' iov out i flags sz
                     ((push_bit 12 (unat b0 AND 0x0F) OR push_bit 4 (unat (rest ! 0))
                         OR drop_bit 4 (unat (rest ! 1))) + 0x111)
                     (push_bit 8 (unat (rest ! 1) AND 0x0F) OR unat (rest ! 2))))
       \<and> (drop_bit 4 b0 \<noteq> 0 \<and> drop_bit 4 b0 \<noteq> 1 \<and> 1 \<le> length rest \<longrightarrow>
            (\<exists>input'. ready input' \<and> pending input' = drop 1 rest
               \<and> lz11_loop callback_mem input iov out i flags sz =
                   lz11_block callback_mem input' iov out i flags sz
                     (drop_bit 4 (unat b0) + 1)
                     (push_bit 8 (unat b0 AND 0x0F) OR unat (rest ! 0))))"
proof -
  from BufferGet_ready [OF assms(1,2)]
  obtain input0 where g0: "Tex3DS_BufferGet callback_mem input = (Some b0, input0)"
    and r0: "ready input0" and p0: "pending input0 = rest"
    by blast
  note block = lz11_loop_block [OF assms(3-5) g0]
  have one: "\<exists>input1. Tex3DS_BufferGet callback_mem input0 = (Some (rest ! 0), input1)
               \<and> ready input1 \<and> pending input1 = drop 1 rest" if "1 \<le> length rest"
  proof -
    from that have "pending input0 = rest ! 0 # drop 1 rest"
      by (cases rest) (simp_all add: p0)
    from BufferGet_ready [OF r0 this] show ?thesis .
  qed
  have two: "\<exists>input1 input2. Tex3DS_BufferGet callback_mem input0 = (Some (rest ! 0), input1)
               \<and> Tex3DS_BufferGet callback_mem input1 = (Some (rest ! 1), input2)
               \<and> ready input2 \<and> pending input2 = drop 2 rest" if "2 \<le> length rest"
  proof -
    from that one obtain input1 where
      g1: "Tex3DS_BufferGet callback_mem input0 = (Some (rest ! 0), input1)"
      and r1: "ready input1" and p1: "pending input1 = drop 1 rest"
      by auto
    from that have "1 < length rest" by simp
    then have "rest ! 1 # drop (Suc 1) rest = drop 1 rest"
      by (rule Cons_nth_drop_Suc)
    then have "pending input1 = rest ! 1 # drop 2 rest"
      by (simp add: p1 numeral_2_eq_2)
    from BufferGet_ready [OF r1 this] g1 show ?thesis by blast
  qed
  have three: "\<exists>input1 input2 input3.
                 Tex3DS_BufferGet callback_mem input0 = (Some (rest ! 0), input1)
               \<and> Tex3DS_BufferGet callback_mem input1 = (Some (rest ! 1), input2)
               \<and> Tex3DS_BufferGet callback_mem input2 = (Some (rest ! 2), input3)
               \<and> ready input3 \<and> pending input3 = drop 3 rest" if "3 \<le> length rest"
  proof -
    from that two obtain input1 input2 where
      g1: "Tex3DS_BufferGet callback_mem input0 = (Some (rest ! 0), input1)"
      and g2: "Tex3DS_BufferGet callback_mem input1 = (Some (rest ! 1), input2)"
      and r2: "ready input2" and p2: "pending input2 = drop 2 rest"
      by auto
    from that have "2 < length rest" by simp
    then have "rest ! 2 # drop (Suc 2) rest = drop 2 rest"
      by (rule Cons_nth_drop_Suc)
    then have "pending input2 = rest ! 2 # drop 3 rest"
      by (simp add: p2 numeral_3_eq_3 numeral_2_eq_2)
    from BufferGet_ready [OF r2 this] g1 g2 show ?thesis by blast
  qed
  show ?thesis
  proof (intro conjI impI)
    assume a: "drop_bit 4 b0 = 0 \<and> 2 \<le> length rest"
    with two obtain input1 input2 where
      g: "Tex3DS_BufferGet callback_mem input0 = (Some (rest ! 0), input1)"
         "Tex3DS_BufferGet callback_mem input1 = (Some (rest ! 1), input2)"
      and r: "ready input2" and p: "pending input2 = drop 2 rest"
      by auto
    from a g have "lz11_displen callback_mem input0 b0 =
        (Some ((push_bit 4 (unat b0) OR drop_bit 4 (unat (rest ! 0))) + 0x11,
               push_bit 8 (unat (rest ! 0) AND 0x0F) OR unat (rest ! 1)), input2)"
      by (simp add: lz11_displen_def lz11_len_ext_def lz11_disp_def unat_low_nibble
            unat_high_nibble)
    from block [OF this] r p
    show "\<exists>input'. ready input' \<and> pending input' = drop 2 rest
            \<and> lz11_loop callback_mem input iov out i flags sz =
                lz11_block callback_mem input' iov out i flags sz
                  ((push_bit 4 (unat b0) OR drop_bit 4 (unat (rest ! 0))) + 0x11)
                  (push_bit 8 (unat (rest ! 0) AND 0x0F) OR unat (rest ! 1))"
      by blast
  next
    assume a: "drop_bit 4 b0 = 1 \<and> 3 \<le> length rest"
    with three obtain input1 input2 input3 where
      g: "Tex3DS_BufferGet callback_mem input0 = (Some (rest ! 0), input1)"
         "Tex3DS_BufferGet callback_mem input1 = (Some (rest ! 1), input2)"
         "Tex3DS_BufferGet callback_mem input2 = (Some (rest ! 2), input3)"
      and r: "ready input3" and p: "pending input3 = drop 3 rest"
      by auto
    from a g have "lz11_displen callback_mem input0 b0 =
        (Some ((push_bit 12 (unat b0 AND 0x0F) OR push_bit 4 (unat (rest ! 0))
                  OR drop_bit 4 (unat (rest ! 1))) + 0x111,
               push_bit 8 (unat (rest ! 1) AND 0x0F) OR unat (rest ! 2)), input3)"
      by (simp add: lz11_displen_def lz11_len_extra_def lz11_disp_def unat_low_nibble
            unat_high_nibble)
    from block [OF this] r p
    show "\<exists>input'. ready input' \<and> pending input' = drop 3 rest
            \<and> lz11_loop callback_mem input iov out i flags sz =
                lz11_block callback_mem input' iov out i flags sz
                  ((push_bit 12 (unat b0 AND 0x0F) OR push_bit 4 (unat (rest ! 0))
                      OR drop_bit 4 (unat (rest ! 1))) + 0x111)
                  (push_bit 8 (unat (rest ! 1) AND 0x0F) OR unat (rest ! 2))"
      by blast
  next
    assume a: "drop_bit 4 b0 \<noteq> 0 \<and> drop_bit 4 b0 \<noteq> 1 \<and> 1 \<le> length rest"
    with one obtain input1 where
      g: "Tex3DS_BufferGet callback_mem input0 = (Some (rest ! 0), input1)"
      and r: "ready input1" and p: "pending input1 = drop 1 rest"
      by auto
    from a g have "lz11_displen callback_mem input0 b0 =
        (Some (drop_bit 4 (unat b0) + 1,
               push_bit 8 (unat b0 AND 0x0F) OR unat (rest ! 0)), input1)"
      by (simp add: lz11_displen_def lz11_len_normal_def lz11_disp_def unat_low_nibble
            unat_high_nibble)
    from block [OF this] r p
    show "\<exists>input'. ready input' \<and> pending input' = drop 1 rest
            \<and> lz11_loop callback_mem input iov out i flags sz =
                lz11_block callback_mem input' iov out i flags sz
                  (drop_bit 4 (unat b0) + 1)
                  (push_bit 8 (unat b0 AND 0x0F) OR unat (rest ! 0))"
      by blast
  qed
qed

text \<open>
  The theorem at the headers 01 23 45 (length 0x23, displacement 0x345), 12 34 56 78 (length
  0x2456, displacement 0x678) and 52 07 (length 6, displacement 0x207), each followed by the
  byte 99.
\<close>

theorem lz11_block_header_witness:
  "(\<exists>input'. pending input' = [0x99]
      \<and> lz11_loop callback_mem
           (\<lparr>data = [0, 0, 0, 0], limit = 4, bsize = 0, bpos = 0, total = 0\<rparr>,
            ([0x01, 0x23, 0x45, 0x99], []))
           [[0, 0]] \<lparr>cnt = 1, num = 0, pos = 0\<rparr> 0 0x80 1
         = lz11_block callback_mem input' [[0, 0]] \<lparr>cnt = 1, num = 0, pos = 0\<rparr> 0 0x80 1
             0x23 0x345)
   \<and> (\<exists>input'. pending input' = [0x99]
        \<and> lz11_loop callback_mem
             (\<lparr>data = [0, 0, 0, 0], limit = 4, bsize = 0, bpos = 0, total = 0\<rparr>,
              ([0x12, 0x34, 0x56, 0x78, 0x99], []))
             [[0, 0]] \<lparr>cnt = 1, num = 0, pos = 0\<rparr> 0 0x80 1
           = lz11_block callback_mem input' [[0, 0]] \<lparr>cnt = 1, num = 0, pos = 0\<rparr> 0 0x80 1
               0x2456 0x678)
   \<and> (\<exists>input'. pending input' = [0x99]
        \<and> lz11_loop callback_mem
             (\<lparr>data = [0, 0, 0, 0], limit = 4, bsize = 0, bpos = 0, total = 0\<rparr>,
              ([0x52, 0x07, 0x99], []))
             [[0, 0]] \<lparr>cnt = 1, num = 0, pos = 0\<rparr> 0 0x80 1
           = lz11_block callback_mem input' [[0, 0]] \<lparr>cnt = 1, num = 0, pos = 0\<rparr> 0 0x80 1
               6 0x207)"
proof -
  let ?b = "\<lparr>data = [0, 0, 0, 0], limit = 4, bsize = 0, bpos = 0, total = 0\<rparr>"
  let ?iov = "[[0, 0]] :: Tex3DS_IOVec list"
  let ?out = "\<lparr>cnt = 1, num = 0, pos = 0\<rparr>"
  have rdy: "ready (?b, (bytes, []))" for bytes
    by (simp add: ready_def wf_buffer_def)
  have pend: "pending (?b, (b0 # rest, [])) = b0 # rest" for b0 rest
    by (simp add: pending_def resident_def bytes_at_def)
  have a: "(0::nat) < 8" "(0::nat) < 1" "(0x80 :: byte) AND 0x80 \<noteq> 0"
    by simp_all
  have l1: "(push_bit 4 (unat (0x01 :: byte)) OR drop_bit 4 (unat (0x23 :: byte))) + 0x11 = 0x23"
    and d1: "push_bit 8 (unat (0x23 :: byte) AND 0x0F) OR unat (0x45 :: byte) = 0x345"
    by (simp_all add: push_bit_eq_mult drop_bit_eq_div)
  have l2: "(push_bit 12 (unat (0x12 :: byte) AND 0x0F) OR push_bit 4 (unat (0x34 :: byte))
               OR drop_bit 4 (unat (0x56 :: byte))) + 0x111 = 0x2456"
    and d2: "push_bit 8 (unat (0x56 :: byte) AND 0x0F) OR unat (0x78 :: byte) = 0x678"
    by (simp_all add: push_bit_eq_mult drop_bit_eq_div)
  have l3: "drop_bit 4 (unat (0x52 :: byte)) + 1 = 6"
    and d3: "push_bit 8 (unat (0x52 :: byte) AND 0x0F) OR unat (0x07 :: byte) = 0x207"
    by (simp_all add: push_bit_eq_mult drop_bit_eq_div)
  from lz11_block_header [where ?b0.0 = "0x01" and rest = "[0x23, 0x45, 0x99]" and iov = ?iov
      and out = ?out, OF rdy pend a, THEN conjunct1]
  have "\<exists>input'. pending input' = [0x99]
          \<and> lz11_loop callback_mem (?b, ([0x01, 0x23, 0x45, 0x99], [])) ?iov ?out 0 0x80 1
              = lz11_block callback_mem input' ?iov ?out 0 0x80 1 0x23 0x345"
    using l1 d1 by (simp add: drop_bit_eq_div) blast
  moreover
  from lz11_block_header [where ?b0.0 = "0x12" and rest = "[0x34, 0x56, 0x78, 0x99]"
      and iov = ?iov and out = ?out, OF rdy pend a, THEN conjunct2, THEN conjunct1]
  have "\<exists>input'. pending input' = [0x99]
          \<and> lz11_loop callback_mem (?b, ([0x12, 0x34, 0x56, 0x78, 0x99], [])) ?iov ?out 0 0x80 1
              = lz11_block callback_mem input' ?iov ?out 0 0x80 1 0x2456 0x678"
    using l2 d2 by (simp add: drop_bit_eq_div) blast
  moreover
  from lz11_block_header [where ?b0.0 = "0x52" and rest = "[0x07, 0x99]" and iov = ?iov
      and out = ?out, OF rdy pend a, THEN conjunct2, THEN conjunct2]
  have "\<exists>input'. pending input' = [0x99]
          \<and> lz11_loop callback_mem (?b, ([0x52, 0x07, 0x99], [])) ?iov ?out 0 0x80 1
              = lz11_block callback_mem input' ?iov ?out 0 0x80 1 6 0x207"
    using l3 d3 by (simp add: drop_bit_eq_div) blast
  ultimately show ?thesis by simp
qed

section \<open>Claims about the dispatcher\<close>

lemma iov_size_from_capacity:
  "sz + capacity iov \<le> SIZE_MAX \<Longrightarrow> iov_size_from iov sz = Inr (sz + capacity iov)"
  by (induction iov arbitrary: sz) (auto simp: capacity_def)

lemma iov_size_capacity: "capacity iov \<le> SIZE_MAX \<Longrightarrow> iov_size iov = Inr (capacity iov)"
  using iov_size_from_capacity [of 0 iov] by (simp add: iov_size_def)

lemma not_top_bit: "NOT (0x80 :: byte) = 0x7F"
  by simp

lemma kind_top_bit_set: "(h :: byte) AND NOT 0x80 = h AND 0x7F"
  by (simp only: not_top_bit)

lemma kind_top_bit_set_norm: "(h :: byte) AND - 129 = h AND 0x7F"
proof -
  have "(- 129 :: byte) = 0x7F" by simp
  then show ?thesis by (simp only:)
qed

lemma kind_top_bit_clear:
  assumes "(h :: byte) AND 0x80 = 0"
  shows "h AND 0x7F = h"
proof -
  have m: "(255 :: byte) = - 1" by simp
  have s: "(255 :: byte) = 0x80 OR 0x7F" by simp
  have "h = h AND 255" unfolding m by simp
  also have "\<dots> = h AND (0x80 OR 0x7F)" by (simp only: s)
  also have "\<dots> = (h AND 0x80) OR (h AND 0x7F)" by (rule bit.conj_disj_distrib)
  also have "\<dots> = h AND 0x7F" by (simp only: assms or.left_neutral)
  finally show ?thesis by simp
qed

text \<open>
  The dispatcher on a header it could read, into at least one region: the strategy of the
  kind \<open>header[0] & 0x7F\<close> runs with the declared size clamped to the capacity; with the top
  bit of \<open>header[0]\<close> set, four more bytes are read first and \<open>header[4] << 24\<close> is or-ed into
  the declared size.
\<close>

lemma DecompressV_dispatch:
  assumes "iov \<noteq> []" and "capacity iov \<le> SIZE_MAX"
    and "Tex3DS_BufferRead callback input 4 = (True, header, input1)"
  shows "header ! 0 AND 0x80 = 0 \<Longrightarrow>
           Tex3DS_DecompressV callback input iov tree =
             decode_kind callback input1 iov tree (header ! 0 AND 0x7F)
               (min (header_size header) (capacity iov))"
    and "header ! 0 AND 0x80 \<noteq> 0 \<Longrightarrow>
         Tex3DS_BufferRead callback input1 4 = (True, header4, input2) \<Longrightarrow>
           Tex3DS_DecompressV callback input iov tree =
             decode_kind callback input2 iov tree (header ! 0 AND 0x7F)
               (min (header_size header OR push_bit 24 (unat (header4 ! 0))) (capacity iov))"
    and "header ! 0 AND 0x80 \<noteq> 0 \<Longrightarrow>
         Tex3DS_BufferRead callback input1 4 = (False, header4, input2) \<Longrightarrow>
           Tex3DS_DecompressV callback input iov tree = (Failure, iov, input2)"
  using assms
  by (simp_all add: Tex3DS_DecompressV_def iov_size_capacity kind_top_bit_clear
        kind_top_bit_set kind_top_bit_set_norm header_size_ext_def min_def)

text \<open>
  C9: when the kind of the header, \<open>header[0]\<close> with its top bit cleared, is none of 0x00,
  0x10, 0x11, 0x28 and 0x30, \<^verbatim>\<open>Tex3DS_DecompressV\<close> returns \<^verbatim>\<open>false\<close> and the output regions are
  as they were. (The sum of the region sizes is a \<^verbatim>\<open>size_t\<close>, as \<^verbatim>\<open>iov_size\<close> asserts.)
\<close>

theorem DecompressV_unknown_kind:
  assumes "Tex3DS_BufferRead callback input 4 = (True, header, input1)"
    and "header ! 0 AND 0x7F \<notin> {0x00, 0x10, 0x11, 0x28, 0x30}"
    and "capacity iov \<le> SIZE_MAX"
  shows "fst (Tex3DS_DecompressV callback input iov tree) = Failure
       \<and> fst (snd (Tex3DS_DecompressV callback input iov tree)) = iov"
proof (cases "iov = []")
  case True
  then show ?thesis
    by (simp add: Tex3DS_DecompressV_def)
next
  case False
  have unknown: "decode_kind callback inp iov tree (header ! 0 AND 0x7F) sz = (Failure, iov, inp)"
    for inp sz
    using assms(2) by (simp add: decode_kind_def)
  show ?thesis
  proof (cases "header ! 0 AND 0x80 = 0")
    case True
    from DecompressV_dispatch(1) [OF False assms(3,1) True] unknown show ?thesis
      by simp
  next
    case top: False
    obtain ok4 header4 input2 where
      r: "Tex3DS_BufferRead callback input1 4 = (ok4, header4, input2)"
      by (metis prod_cases3)
    show ?thesis
    proof (cases ok4)
      case True
      with DecompressV_dispatch(2) [OF False assms(3,1) top] r unknown show ?thesis
        by simp
    next
      case False
      with DecompressV_dispatch(3) [OF \<open>iov \<noteq> []\<close> assms(3,1) top] r show ?thesis
        by simp
    qed
  qed
qed

text \<open>The theorem at the header 05 03 00 00, into one region of two bytes.\<close>

theorem DecompressV_unknown_kind_witness:
  "fst (Tex3DS_DecompressV callback_mem
          (\<lparr>data = [0, 0, 0, 0], limit = 4, bsize = 0, bpos = 0, total = 0\<rparr>,
           ([0x05, 3, 0, 0, 1, 2, 3], []))
          [[0, 0]] None) = Failure
   \<and> fst (snd (Tex3DS_DecompressV callback_mem
          (\<lparr>data = [0, 0, 0, 0], limit = 4, bsize = 0, bpos = 0, total = 0\<rparr>,
           ([0x05, 3, 0, 0, 1, 2, 3], []))
          [[0, 0]] None)) = [[0, 0]]"
proof -
  let ?b = "\<lparr>data = [0, 0, 0, 0], limit = 4, bsize = 0, bpos = 0, total = 0\<rparr>"
  have r: "Tex3DS_BufferRead callback_mem (?b, ([0x05, 3, 0, 0, 1, 2, 3], [])) 4
             = (True, [0x05, 3, 0, 0],
                (\<lparr>data = [0x05, 3, 0, 0], limit = 4, bsize = 4, bpos = 4, total = 0\<rparr>,
                 ([1, 2, 3], [])))"
    by (simp add: Tex3DS_BufferRead.simps bytes_at_def stored_def)
  have k: "[0x05, 3, 0, 0 :: byte] ! 0 AND 0x7F \<notin> {0x00, 0x10, 0x11, 0x28, 0x30}"
    by simp
  have c: "capacity [[0, 0 :: byte]] \<le> SIZE_MAX"
    by (simp add: capacity_def SIZE_MAX_def)
  from DecompressV_unknown_kind [OF r k c] show ?thesis .
qed

section \<open>Where the code departs from the claims\<close>

lemma copy_loop_numeral:
  "copy_loop iov outbuf inbuf (numeral v) =
     copy_loop (poke iov outbuf (peek iov inbuf)) (fst outbuf, snd outbuf + 1)
       (fst inbuf, snd inbuf + 1) (numeral v - 1)"
  by (simp add: numeral_eq_Suc)

text \<open>
  C1 (the claim: a compressed block of \<^verbatim>\<open>lzss_decode\<close> copies \<open>length\<close> bytes from
  \<open>displacement + 1\<close> bytes behind the output position; the literal A followed by a
  back-reference of length 6 to the byte before, decoded with size 7, gives A A A A A A A).
  What the code does: it calls \<^verbatim>\<open>iov_memmove(&out, &in, size)\<close> with \<^verbatim>\<open>size\<close> already reduced
  by \<^verbatim>\<open>len\<close>, so the number of bytes copied is what is left of the budget after the block.
  \<^item> The stream 40 41 30 00 (flags, the literal A, length 6 at distance 1) with size 7: the
    block leaves \<^verbatim>\<open>size = 0\<close>, nothing is copied, and the call returns \<^verbatim>\<open>true\<close> with the six
    bytes after A unwritten.
  \<^item> The same stream with size 10: three bytes are copied instead of six, and the run stops
    in \<^verbatim>\<open>iov_memmove\<close> (see C2).
  \<^item> With the displacement field 1 (40 41 30 01), two bytes behind the output position is
    before the first region and \<^verbatim>\<open>iov_sub\<close> stops in its assertion.
\<close>

theorem lzss_decode_copies_remaining_size:
  "lzss_decode callback_mem
     (\<lparr>data = [0, 0, 0, 0], limit = 4, bsize = 0, bpos = 0, total = 0\<rparr>,
      ([0x40, 0x41, 0x30, 0x00], []))
     [[0, 0, 0, 0, 0, 0, 0]] 7
   = (Success, [[0x41, 0, 0, 0, 0, 0, 0]],
      (\<lparr>data = [0x40, 0x41, 0x30, 0x00], limit = 4, bsize = 4, bpos = 4, total = 3\<rparr>,
       ([], [])))
   \<and> lzss_decode callback_mem
       (\<lparr>data = [0, 0, 0, 0], limit = 4, bsize = 0, bpos = 0, total = 0\<rparr>,
        ([0x40, 0x41, 0x30, 0x00], []))
       [[0, 0, 0, 0, 0, 0, 0, 0, 0, 0]] 10
     = (Abort OutOfBounds, [[0x41, 0x41, 0x41, 0x41, 0, 0, 0, 0, 0, 0]],
        (\<lparr>data = [0x40, 0x41, 0x30, 0x00], limit = 4, bsize = 4, bpos = 4, total = 3\<rparr>,
         ([], [])))
   \<and> lzss_decode callback_mem
       (\<lparr>data = [0, 0, 0, 0], limit = 4, bsize = 0, bpos = 0, total = 0\<rparr>,
        ([0x40, 0x41, 0x30, 0x01], []))
       [[0, 0, 0, 0, 0, 0, 0]] 7
     = (Abort AssertionFailed, [[0x41, 0, 0, 0, 0, 0, 0]],
        (\<lparr>data = [0x40, 0x41, 0x30, 0x01], limit = 4, bsize = 4, bpos = 4, total = 3\<rparr>,
         ([], [])))"
  by (simp add: eval_simps copy_loop_numeral lzss_decode_def lzss_loop.simps lzss_len_def
        lzss_disp_def iov_memmove.simps)

text \<open>
  C2 (the claim: \<^verbatim>\<open>iov_memmove(dst, src, n)\<close> writes the \<open>n\<close> bytes, leaves the rest alone and
  ends with both iterators advanced by \<open>n\<close>). What the code does: the bytes of a chunk are
  copied low to high, but the iterators are advanced after the loop
  \<^verbatim>\<open>while(bytes-- > 0)\<close>, which leaves \<^verbatim>\<open>bytes\<close> at \<^verbatim>\<open>SIZE_MAX\<close>; \<^verbatim>\<open>iov_add\<close> then walks over
  every region and evaluates the one behind the last. Copying one byte from offset 0 to
  offset 1 of a region of four bytes writes the byte and stops there, the iterators where
  they were; a copy of two bytes over two regions stops after its first chunk.
\<close>

theorem iov_memmove_advances_by_SIZE_MAX:
  "iov_memmove [[1, 2, 3, 4]] \<lparr>cnt = 1, num = 0, pos = 1\<rparr> \<lparr>cnt = 1, num = 0, pos = 0\<rparr> 1
     = (Abort OutOfBounds, \<lparr>cnt = 1, num = 0, pos = 1\<rparr>, \<lparr>cnt = 1, num = 0, pos = 0\<rparr>,
        [[1, 1, 3, 4]])
   \<and> iov_memmove [[1, 2, 3], [4, 5, 6]] \<lparr>cnt = 2, num = 0, pos = 2\<rparr>
         \<lparr>cnt = 2, num = 0, pos = 0\<rparr> 2
     = (Abort OutOfBounds, \<lparr>cnt = 2, num = 0, pos = 2\<rparr>, \<lparr>cnt = 2, num = 0, pos = 0\<rparr>,
        [[1, 2, 1], [4, 5, 6]])
   \<and> copy_loop [[1, 2, 3, 4]] (0, 1) (0, 0) 1 = ([[1, 1, 3, 4]], SIZE_MAX)
   \<and> iov_add [[1, 1, 3, 4]] \<lparr>cnt = 1, num = 0, pos = 1\<rparr> SIZE_MAX = Inl OutOfBounds"
  by (simp add: eval_simps copy_loop_numeral iov_memmove.simps)

text \<open>
  C3 (the claim: the dispatcher reads the header, clamps the declared size to the capacity,
  and when the declared size exceeds the capacity exactly capacity bytes are produced and the
  call succeeds). The header is read and the size clamped as the claim says
  (\<open>DecompressV_dispatch\<close>); the last part fails in the strategies.
  \<^item> 10 0A 00 00 40 41 60 00 (LZSS, declared size 10: the literal A and a back-reference of
    length 9) into one region of 7 bytes: the call returns \<^verbatim>\<open>true\<close> with one byte produced.
  \<^item> 00 03 00 00 01 02 03 (stored, declared size 3) into one region of 2 bytes: the two bytes
    are written and the run stops in \<^verbatim>\<open>iov_add\<close>, which evaluates the region behind the last
    one.
\<close>

theorem DecompressV_truncation:
  "Tex3DS_DecompressV callback_mem
     (\<lparr>data = [0, 0, 0, 0], limit = 4, bsize = 0, bpos = 0, total = 0\<rparr>,
      ([0x10, 0x0A, 0, 0, 0x40, 0x41, 0x60, 0x00], []))
     [[0, 0, 0, 0, 0, 0, 0]] None
   = (Success, [[0x41, 0, 0, 0, 0, 0, 0]],
      (\<lparr>data = [0x40, 0x41, 0x60, 0x00], limit = 4, bsize = 4, bpos = 4, total = 3\<rparr>,
       ([], [])))
   \<and> Tex3DS_DecompressV callback_mem
       (\<lparr>data = [0, 0, 0, 0], limit = 4, bsize = 0, bpos = 0, total = 0\<rparr>,
        ([0x00, 3, 0, 0, 1, 2, 3], []))
       [[0, 0]] None
     = (Abort OutOfBounds, [[1, 2]],
        (\<lparr>data = [1, 2, 3, 0], limit = 4, bsize = 3, bpos = 2, total = 0\<rparr>, ([], [])))"
  by (simp add: eval_simps copy_loop_numeral lzss_decode_def lzss_loop.simps lzss_len_def
        lzss_disp_def iov_memmove.simps iov_read.simps)

text \<open>
  C10 (the claim: in a decode that fills the output to its capacity, every access to the
  region array uses an index below the number of regions). What the code does: after the
  last byte of the last region is written, \<^verbatim>\<open>iov_add\<close> sets \<^verbatim>\<open>num\<close> to the number of regions
  and its loop, which has no exit on \<^verbatim>\<open>size = 0\<close>, evaluates \<^verbatim>\<open>it->iov[it->num].size\<close> once
  more. The stream 00 03 00 00 01 02 03 (stored, 3 bytes) into one region of 3 bytes writes
  01 02 03 and then reads the region of index 1; \<^verbatim>\<open>iov_increment\<close> at the same place moves
  to index 1 without reading it.
\<close>

theorem iov_add_reads_past_last_region:
  "Tex3DS_DecompressV callback_mem
     (\<lparr>data = [0, 0, 0, 0], limit = 4, bsize = 0, bpos = 0, total = 0\<rparr>,
      ([0x00, 3, 0, 0, 1, 2, 3], []))
     [[0, 0, 0]] None
   = (Abort OutOfBounds, [[1, 2, 3]],
      (\<lparr>data = [1, 2, 3, 0], limit = 4, bsize = 3, bpos = 3, total = 0\<rparr>, ([], [])))
   \<and> iov_add [[1, 2, 3]] \<lparr>cnt = 1, num = 0, pos = 0\<rparr> 3 = Inl OutOfBounds
   \<and> iov_add [[1, 2, 3]] \<lparr>cnt = 1, num = 1, pos = 0\<rparr> 0 = Inl OutOfBounds
   \<and> iov_increment [[1, 2, 3]] \<lparr>cnt = 1, num = 0, pos = 2\<rparr>
       = Inr \<lparr>cnt = 1, num = 1, pos = 0\<rparr>"
  by (simp add: eval_simps iov_read.simps)

section \<open>The Huffman strategy against its description\<close>

text \<open>
  The description of the Huffman strategy, in its own terms. The bit stream of a payload:
  every four bytes make a 32-bit word, the first byte the least significant, and the bits of
  a word are used from the most significant down; bytes short of a group of four give no
  bits.
\<close>

definition le_word :: "byte \<Rightarrow> byte \<Rightarrow> byte \<Rightarrow> byte \<Rightarrow> 32 word" where
  "le_word w0 w1 w2 w3 =
     ucast w0 OR push_bit 8 (ucast w1) OR push_bit 16 (ucast w2) OR push_bit 24 (ucast w3)"

definition window :: "32 word \<Rightarrow> nat \<Rightarrow> bool list" where
  "window w k = map (bit w) (rev [0..<k])"

fun huff_bits :: "byte list \<Rightarrow> bool list" where
  "huff_bits (w0 # w1 # w2 # w3 # bytes) = window (le_word w0 w1 w2 w3) 32 @ huff_bits bytes"
| "huff_bits bytes = []"

text \<open>
  The walk through the tree table: from \<open>node\<close>, a bit selects the child at
  \<open>(node & ~1) + 2 * (tree[node] & 0x1F) + 2\<close>, plus one for a 1 bit; when the flag of that side
  is set in \<open>tree[node]\<close> (0x80 for a 0 bit, 0x40 for a 1 bit) the byte of the child is emitted
  and the walk restarts at index 1, otherwise it goes on from the child. It ends when \<open>n\<close>
  bytes are emitted, with those bytes and the number of bits used; it has no result when the
  bits run out or an index leaves the table.
\<close>

fun huff_walk :: "byte list \<Rightarrow> nat \<Rightarrow> bool list \<Rightarrow> nat \<Rightarrow> (byte list \<times> nat) option" where
  "huff_walk tree node bits 0 = Some ([], 0)"
| "huff_walk tree node [] (Suc n) = None"
| "huff_walk tree node (b # bits) (Suc n) =
     (if \<not> node < length tree then None
      else
        let child = 2 * (node div 2) + 2 * unat (tree ! node AND 0x1F) + 2 + (if b then 1 else 0)
        in if tree ! node AND (if b then 0x40 else 0x80) \<noteq> 0 then
             if \<not> child < length tree then None
             else (case huff_walk tree 1 bits n of
                     None \<Rightarrow> None
                   | Some (bs, used) \<Rightarrow> Some ((tree ! child AND 0xFF) # bs, Suc used))
           else (case huff_walk tree child bits (Suc n) of
                   None \<Rightarrow> None
                 | Some (bs, used) \<Rightarrow> Some (bs, Suc used)))"

text \<open>
  The variable \<^verbatim>\<open>mask\<close> of \<^verbatim>\<open>huff_decode\<close> when \<open>k\<close> bits of the word are still unused.
\<close>

definition mask_of :: "nat \<Rightarrow> 32 word" where
  "mask_of k = (if k = 0 then 0 else push_bit (k - 1) 1)"

lemma window_Suc: "window w (Suc k) = bit w k # window w k"
  by (simp add: window_def)

lemma window_0: "window w 0 = []"
  by (simp add: window_def)

lemma mask_of_32: "mask_of 32 = 0x80000000"
  by (simp add: mask_of_def)

lemma mask_of_nonzero: "0 < k \<Longrightarrow> k \<le> 32 \<Longrightarrow> mask_of k \<noteq> 0"
  by (simp add: mask_of_def)

lemma and_mask_of: "0 < k \<Longrightarrow> (w AND mask_of k \<noteq> 0) = bit w (k - 1)"
  by (simp add: mask_of_def and_exp_eq_0_iff_not_bit)

lemma drop_bit_mask_of: "0 < k \<Longrightarrow> k \<le> 32 \<Longrightarrow> drop_bit 1 (mask_of k) = mask_of (k - 1)"
proof (cases "k = 1")
  case True
  then show ?thesis by (simp add: mask_of_def)
next
  case False
  assume "0 < k" "k \<le> 32"
  with False have "1 \<le> k - 1" "k - 1 < 32" by simp_all
  then show ?thesis
    using False \<open>0 < k\<close>
    by (simp add: mask_of_def drop_bit_exp_eq possible_bit_word diff_diff_eq [symmetric])
qed

lemma huff_bits_Cons:
  assumes "huff_bits bytes = b # bits"
  shows "\<exists>w0 w1 w2 w3 rest. bytes = w0 # w1 # w2 # w3 # rest"
  using assms by (cases bytes rule: huff_bits.cases) auto

lemma huff_word_ready:
  assumes "ready input" and "pending input = w0 # w1 # w2 # w3 # rest"
  shows "\<exists>input'. huff_word callback_mem input = (Some (le_word w0 w1 w2 w3), input')
           \<and> ready input' \<and> pending input' = rest"
proof -
  from BufferGet_ready [OF assms]
  obtain i1 where g1: "Tex3DS_BufferGet callback_mem input = (Some w0, i1)"
    and r1: "ready i1" and p1: "pending i1 = w1 # w2 # w3 # rest" by blast
  from BufferGet_ready [OF r1 p1]
  obtain i2 where g2: "Tex3DS_BufferGet callback_mem i1 = (Some w1, i2)"
    and r2: "ready i2" and p2: "pending i2 = w2 # w3 # rest" by blast
  from BufferGet_ready [OF r2 p2]
  obtain i3 where g3: "Tex3DS_BufferGet callback_mem i2 = (Some w2, i3)"
    and r3: "ready i3" and p3: "pending i3 = w3 # rest" by blast
  from BufferGet_ready [OF r3 p3]
  obtain i4 where g4: "Tex3DS_BufferGet callback_mem i3 = (Some w3, i4)"
    and r4: "ready i4" and p4: "pending i4 = rest" by blast
  from g1 g2 g3 g4 have "huff_word callback_mem input = (Some (le_word w0 w1 w2 w3), i4)"
    by (simp add: huff_word_def le_word_def)
  with r4 p4 show ?thesis by blast
qed

lemma huff_loop_refill:
  assumes "0 < sz" and "huff_word callback input = (Some w, input')"
  shows "huff_loop callback input iov out tree word 0 node sz
           = huff_loop callback input' iov out tree w (mask_of 32) node sz"
  using assms
  by (subst huff_loop.simps, subst (2) huff_loop.simps) (simp add: mask_of_32)

text \<open>The index \<^verbatim>\<open>child\<close> that \<^verbatim>\<open>huff_decode\<close> computes at a node, before a 1 bit adds one.\<close>

definition child_of :: "byte list \<Rightarrow> nat \<Rightarrow> nat" where
  "child_of tree node = node - node mod 2 + unat (tree ! node AND 0x1F) * 2 + 2"

lemma huff_loop_bit:
  assumes "0 < sz" and "0 < k" and "k \<le> 32" and "node < length tree"
  shows "huff_loop callback input iov out tree word (mask_of k) node sz =
     (if bit word (k - 1) then
        if tree ! node AND 0x40 \<noteq> 0 then
          if \<not> child_of tree node + 1 < length tree then (Abort OutOfBounds, iov, input)
          else
            (case iov_addr iov out of
               Inl f \<Rightarrow> (Abort f, iov, input)
             | Inr dest \<Rightarrow>
                 (case iov_increment
                         (poke iov dest (tree ! (child_of tree node + 1) AND 0xFF)) out of
                    Inl f \<Rightarrow>
                      (Abort f, poke iov dest (tree ! (child_of tree node + 1) AND 0xFF), input)
                  | Inr out' \<Rightarrow>
                      huff_loop callback input
                        (poke iov dest (tree ! (child_of tree node + 1) AND 0xFF))
                        out' tree word (mask_of (k - 1)) 1 (sz - 1)))
        else huff_loop callback input iov out tree word (mask_of (k - 1))
               (child_of tree node + 1) sz
      else
        if tree ! node AND 0x80 \<noteq> 0 then
          if \<not> child_of tree node < length tree then (Abort OutOfBounds, iov, input)
          else
            (case iov_addr iov out of
               Inl f \<Rightarrow> (Abort f, iov, input)
             | Inr dest \<Rightarrow>
                 (case iov_increment (poke iov dest (tree ! child_of tree node AND 0xFF)) out of
                    Inl f \<Rightarrow> (Abort f, poke iov dest (tree ! child_of tree node AND 0xFF), input)
                  | Inr out' \<Rightarrow>
                      huff_loop callback input
                        (poke iov dest (tree ! child_of tree node AND 0xFF))
                        out' tree word (mask_of (k - 1)) 1 (sz - 1)))
        else huff_loop callback input iov out tree word (mask_of (k - 1))
               (child_of tree node) sz)"
proof -
  note d = drop_bit_mask_of [OF assms(2,3)]
  note a = and_mask_of [OF assms(2), of word]
  note nz = mask_of_nonzero [OF assms(2,3)]
  show ?thesis
    apply (subst huff_loop.simps)
    apply (unfold child_of_def Let_def)
    apply (simp only: assms(1,4) nz a if_True if_False sum.case prod.case not_not simp_thms)
    apply (unfold d)
    apply (rule refl)
    done
qed

lemma huff_loop_step:
  assumes "0 < sz" and "0 < k" and "k \<le> 32" and "node < length tree"
    and "c = child_of tree node + (if bit word (k - 1) then 1 else 0)"
    and "flag = (if bit word (k - 1) then 0x40 else 0x80)"
  shows "huff_loop callback input iov out tree word (mask_of k) node sz =
     (if tree ! node AND flag \<noteq> 0 then
        if \<not> c < length tree then (Abort OutOfBounds, iov, input)
        else
          (case iov_addr iov out of
             Inl f \<Rightarrow> (Abort f, iov, input)
           | Inr dest \<Rightarrow>
               (case iov_increment (poke iov dest (tree ! c AND 0xFF)) out of
                  Inl f \<Rightarrow> (Abort f, poke iov dest (tree ! c AND 0xFF), input)
                | Inr out' \<Rightarrow>
                    huff_loop callback input (poke iov dest (tree ! c AND 0xFF))
                      out' tree word (mask_of (k - 1)) 1 (sz - 1)))
      else huff_loop callback input iov out tree word (mask_of (k - 1)) c sz)"
proof (cases "bit word (k - 1)")
  case True
  with assms(5,6) have "c = child_of tree node + 1" and "flag = 0x40" by simp_all
  with True show ?thesis
    by (simp only: huff_loop_bit [OF assms(1-4)] if_True)
next
  case False
  with assms(5,6) have "c = child_of tree node" and "flag = 0x80" by simp_all
  with False show ?thesis
    by (simp only: huff_loop_bit [OF assms(1-4)] if_False)
qed

lemma poke_is_poke_bytes:
  assumes "n < length iov" and "p < length (iov ! n)"
  shows "poke iov (n, p) v = poke_bytes iov (n, p) [v]"
  using assms by (simp add: poke_def poke_bytes_def upd_conv_take_nth_drop)

lemma emit_byte:
  assumes "regions_ok iov" and "valid_iter iov out"
  shows "\<exists>out1. iov_addr iov out = Inr (num out, pos out)
           \<and> iov_increment (poke iov (num out, pos out) v) out = Inr out1
           \<and> emitted iov out [v] (poke iov (num out, pos out) v)
           \<and> offset (poke iov (num out, pos out) v) out1 = offset iov out + 1
           \<and> (offset iov out + 1 < capacity iov \<longrightarrow>
                 valid_iter (poke iov (num out, pos out) v) out1)"
proof -
  from assms(2) have c: "cnt out = length iov" and n: "num out < length iov"
    and p: "pos out < length (iov ! num out)"
    by (simp_all add: valid_iterD)
  define iov1 where "iov1 = poke iov (num out, pos out) v"
  have pb: "iov1 = poke_bytes iov (num out, pos out) [v]"
    unfolding iov1_def by (rule poke_is_poke_bytes [OF n p])
  from p have inreg: "pos out + length [v] \<le> length (iov ! num out)" by simp
  have sizes1: "map length iov1 = map length iov"
    unfolding pb by (rule poke_bytes_sizes [OF n inreg])
  have flat1: "concat iov1 = take (offset iov out) (concat iov) @ [v]
                               @ drop (offset iov out + 1) (concat iov)"
    unfolding pb using concat_poke_bytes [OF n inreg] by (simp add: offset_def)
  have len1: "length (iov1 ! num out) = length (iov ! num out)"
    by (rule same_sizes_nth [OF sizes1 n])
  have l1: "length iov1 = length iov" by (rule same_sizes(5) [OF sizes1])
  have em: "emitted iov out [v] iov1"
    using flat1 sizes1 by (simp add: emitted_def)
  show ?thesis
  proof (cases "pos out + 1 = length (iov ! num out)")
    case True
    define out1 where "out1 = out\<lparr>pos := 0, num := num out + 1\<rparr>"
    have inc: "iov_increment iov1 out = Inr out1"
      using c n p True by (simp add: iov_increment_def l1 len1 out1_def)
    have "offset iov1 out1 = offset iov out1"
      by (rule same_sizes(2) [OF sizes1])
    also have "\<dots> = offset iov out + 1"
      using True n by (simp add: out1_def offset_def take_Suc_conv_app_nth)
    finally have off: "offset iov1 out1 = offset iov out + 1" .
    have "valid_iter iov1 out1" if "offset iov out + 1 < capacity iov"
    proof -
      have "Suc (num out) < length iov"
      proof (rule ccontr)
        assume "\<not> Suc (num out) < length iov"
        from last_region_end [OF assms(2) this] True that show False by simp
      qed
      moreover from this assms(1) have "iov ! Suc (num out) \<noteq> []"
        by (simp add: regions_ok_nth)
      ultimately show ?thesis
        using c by (simp add: same_sizes(3) [OF sizes1]) (simp add: valid_iter_def out1_def)
    qed
    with inc off em show ?thesis
      unfolding iov1_def [symmetric] by (simp add: iov_addr_valid [OF assms(2)])
  next
    case False
    define out1 where "out1 = out\<lparr>pos := pos out + 1\<rparr>"
    have inc: "iov_increment iov1 out = Inr out1"
      using c n p False by (simp add: iov_increment_def l1 len1 out1_def)
    have "offset iov1 out1 = offset iov out1"
      by (rule same_sizes(2) [OF sizes1])
    also have "\<dots> = offset iov out + 1"
      by (simp add: out1_def offset_def)
    finally have off: "offset iov1 out1 = offset iov out + 1" .
    have "valid_iter iov1 out1"
      using c n p False
      by (simp add: same_sizes(3) [OF sizes1]) (simp add: valid_iter_def out1_def)
    with inc off em show ?thesis
      unfolding iov1_def [symmetric] by (simp add: iov_addr_valid [OF assms(2)])
  qed
qed

lemma emitted_nothing: "emitted iov out [] iov"
  by (simp add: emitted_def)

lemma emitted_append:
  assumes "emitted iov out xs iov1" and "emitted iov1 out1 ys iov'"
    and "offset iov1 out1 = offset iov out + length xs"
    and "offset iov out + length xs \<le> capacity iov"
  shows "emitted iov out (xs @ ys) iov'"
proof -
  from assms(4) have inlen: "offset iov out + length xs \<le> length (concat iov)"
    by (simp add: capacity_def length_concat)
  from assms(1) have f1: "concat iov1 = take (offset iov out) (concat iov) @ xs
                            @ drop (offset iov out + length xs) (concat iov)"
    and s1: "map length iov1 = map length iov"
    by (simp_all add: emitted_def)
  from assms(2) have f2: "concat iov' = take (offset iov1 out1) (concat iov1) @ ys
                            @ drop (offset iov1 out1 + length ys) (concat iov1)"
    and s2: "map length iov' = map length iov1"
    by (simp_all add: emitted_def)
  have "concat iov' = (take (offset iov out) (concat iov) @ xs) @ ys
          @ drop (offset iov out + length xs + length ys) (concat iov)"
    using f2 overwrite_twice(1) [OF refl inlen]
      overwrite_twice(2) [OF refl inlen, of "length ys"]
    by (simp add: assms(3) f1)
  with s1 s2 show ?thesis
    by (simp add: emitted_def add.assoc)
qed

lemma child_of_spec:
  "2 * (node div 2) + 2 * unat (tree ! node AND 0x1F) + 2 + (if b then 1 else 0)
     = child_of tree node + (if b then 1 else 0)"
proof -
  have "node - node mod 2 = 2 * (node div 2)" by presburger
  then show ?thesis by (simp add: child_of_def)
qed

lemma huff_loop_done:
  "huff_loop callback input iov out tree word msk node 0 = (Success, iov, input)"
  by (subst huff_loop.simps) simp

lemma huff_loop_walk:
  assumes "huff_walk tree node bits sz = Some (bs, used)"
    and "bits = window word k @ huff_bits (pending input)"
    and "k \<le> 32" and "ready input" and "regions_ok iov"
    and "sz = 0 \<or> valid_iter iov out \<and> sz \<le> capacity iov - offset iov out"
  shows "\<exists>iov' input' m k'.
           huff_loop callback_mem input iov out tree word (mask_of k) node sz
             = (Success, iov', input')
           \<and> emitted iov out bs iov' \<and> length bs = sz \<and> ready input'
           \<and> pending input' = drop (4 * m) (pending input)
           \<and> k + 32 * m = used + k' \<and> (0 < m \<longrightarrow> k' < 32)"
  using assms
proof (induction bits arbitrary: input iov out word k node sz bs used)
  case Nil
  from Nil.prems(1) have sz: "sz = 0" and "bs = []" and "used = 0"
    by (cases sz; simp)+
  then show ?case
    using Nil.prems(4) emitted_nothing [of iov out]
    by (intro exI [of _ iov] exI [of _ input] exI [of _ 0] exI [of _ k])
       (simp add: huff_loop_done)
next
  case (Cons b bits)
  show ?case
  proof (cases sz)
    case 0
    with Cons.prems(1) have "bs = []" and "used = 0" by simp_all
    with 0 show ?thesis
      using Cons.prems(4) emitted_nothing [of iov out]
      by (intro exI [of _ iov] exI [of _ input] exI [of _ 0] exI [of _ k])
         (simp add: huff_loop_done)
  next
    case (Suc n)
    then have szpos: "0 < sz" by simp
    with Cons.prems(6) have valid: "valid_iter iov out"
      and fits: "sz \<le> capacity iov - offset iov out"
      by simp_all
    \<comment> \<open>The window holds a bit, after a refill when it was empty.\<close>
    have "\<exists>input1 word1 k1 m1.
            huff_loop callback_mem input iov out tree word (mask_of k) node sz
              = huff_loop callback_mem input1 iov out tree word1 (mask_of k1) node sz
            \<and> 0 < k1 \<and> k1 \<le> 32 \<and> ready input1
            \<and> b # bits = window word1 k1 @ huff_bits (pending input1)
            \<and> pending input1 = drop (4 * m1) (pending input)
            \<and> k + 32 * m1 = k1 \<and> m1 \<le> 1"
    proof (cases "k = 0")
      case False
      with Cons.prems(2,3,4) show ?thesis
        by (intro exI [of _ input] exI [of _ word] exI [of _ k] exI [of _ 0]) simp
    next
      case True
      with Cons.prems(2) have hb: "huff_bits (pending input) = b # bits"
        by (simp add: window_0)
      from huff_bits_Cons [OF this] obtain w0 w1 w2 w3 rest where
        p: "pending input = w0 # w1 # w2 # w3 # rest"
        by blast
      from huff_word_ready [OF Cons.prems(4) p] obtain input1 where
        hw: "huff_word callback_mem input = (Some (le_word w0 w1 w2 w3), input1)"
        and r1: "ready input1" and p1: "pending input1 = rest"
        by blast
      have m0: "mask_of 0 = 0" by (simp add: mask_of_def)
      have l: "huff_loop callback_mem input iov out tree word (mask_of k) node sz
              = huff_loop callback_mem input1 iov out tree (le_word w0 w1 w2 w3) (mask_of 32)
                  node sz"
        using huff_loop_refill [OF szpos hw] by (simp only: True m0)
      have "huff_bits (pending input)
              = window (le_word w0 w1 w2 w3) 32 @ huff_bits (pending input1)"
        by (simp only: p p1 huff_bits.simps)
      with hb [symmetric]
      have w: "b # bits = window (le_word w0 w1 w2 w3) 32 @ huff_bits (pending input1)"
        by (rule trans)
      note l w
      moreover have "pending input1 = drop (4 * 1) (pending input)"
        by (simp add: p p1)
      moreover from True have "k + 32 * 1 = (32::nat)" by simp
      moreover have "0 < (32::nat)" and "(32::nat) \<le> 32" and "(1::nat) \<le> 1" by simp_all
      ultimately show ?thesis
        using r1 by blast
    qed
    then obtain input1 word1 k1 m1 where
      l0: "huff_loop callback_mem input iov out tree word (mask_of k) node sz
             = huff_loop callback_mem input1 iov out tree word1 (mask_of k1) node sz"
      and k1: "0 < k1" "k1 \<le> 32" and r1: "ready input1"
      and w1: "b # bits = window word1 k1 @ huff_bits (pending input1)"
      and p1: "pending input1 = drop (4 * m1) (pending input)"
      and a1: "k + 32 * m1 = k1" and m1: "m1 \<le> 1"
      by (elim exE conjE) (rule that)
    from k1(1) have "window word1 k1 = bit word1 (k1 - 1) # window word1 (k1 - 1)"
      using window_Suc [of word1 "k1 - 1"] by simp
    with w1 have b: "b = bit word1 (k1 - 1)"
      and bits: "bits = window word1 (k1 - 1) @ huff_bits (pending input1)"
      by simp_all
    from k1(2) have k1': "k1 - 1 \<le> 32" by simp
    define c where "c = child_of tree node + (if b then 1 else 0)"
    define flag :: byte where "flag = (if b then 0x40 else 0x80)"
    have walk: "(if \<not> node < length tree then None
         else if tree ! node AND flag \<noteq> 0 then
                if \<not> c < length tree then None
                else (case huff_walk tree 1 bits n of
                        None \<Rightarrow> None
                      | Some (bs, used) \<Rightarrow> Some ((tree ! c AND 0xFF) # bs, Suc used))
              else (case huff_walk tree c bits (Suc n) of
                      None \<Rightarrow> None
                    | Some (bs, used) \<Rightarrow> Some (bs, Suc used))) = Some (bs, used)"
      using Cons.prems(1)
      unfolding Suc huff_walk.simps Let_def child_of_spec c_def [symmetric] flag_def [symmetric] .
    then have node: "node < length tree"
      by (simp split: if_splits)
    note step = huff_loop_step [OF szpos k1 node, of c word1 flag callback_mem input1 iov out,
        unfolded b [symmetric], OF c_def flag_def]
    show ?thesis
    proof (cases "tree ! node AND flag \<noteq> 0")
      case True
      with walk node obtain bs' used' where
        c: "c < length tree" and w': "huff_walk tree 1 bits n = Some (bs', used')"
        and bs: "bs = (tree ! c AND 0xFF) # bs'" and used: "used = Suc used'"
        by (auto split: if_splits option.splits)
      define v where "v = tree ! c AND 0xFF"
      define iov1 where "iov1 = poke iov (num out, pos out) v"
      from emit_byte [OF Cons.prems(5) valid, of v] obtain out1 where
        ad: "iov_addr iov out = Inr (num out, pos out)"
        and inc: "iov_increment iov1 out = Inr out1"
        and em: "emitted iov out [v] iov1"
        and off: "offset iov1 out1 = offset iov out + 1"
        and val: "offset iov out + 1 < capacity iov \<longrightarrow> valid_iter iov1 out1"
        unfolding iov1_def by blast
      from em have sizes1: "map length iov1 = map length iov"
        by (simp add: emitted_def)
      from step True c ad inc
      have l1: "huff_loop callback_mem input1 iov out tree word1 (mask_of k1) node sz
                  = huff_loop callback_mem input1 iov1 out1 tree word1 (mask_of (k1 - 1)) 1 n"
        by (simp add: v_def [symmetric] iov1_def [symmetric] Suc)
      have ok1: "regions_ok iov1"
        using Cons.prems(5) by (simp add: same_sizes(4) [OF sizes1])
      from fits Suc val off
      have inv1: "n = 0 \<or> valid_iter iov1 out1 \<and> n \<le> capacity iov1 - offset iov1 out1"
        by (auto simp: same_sizes(1) [OF sizes1])
      from Cons.IH [OF w' bits k1' r1 ok1 inv1]
      obtain iov' input' m' k' where
        res: "huff_loop callback_mem input1 iov1 out1 tree word1 (mask_of (k1 - 1)) 1 n
                = (Success, iov', input')"
        and em': "emitted iov1 out1 bs' iov'" and len': "length bs' = n"
        and r': "ready input'" and p': "pending input' = drop (4 * m') (pending input1)"
        and a': "k1 - 1 + 32 * m' = used' + k'" and lt': "0 < m' \<longrightarrow> k' < 32"
        by blast
      from valid offset_lt_capacity [OF valid] valid_iterD(3) [OF valid]
      have room: "offset iov out + length [v] \<le> capacity iov"
        by simp
      from emitted_append [OF em em' _ room] off
      have emit: "emitted iov out bs iov'"
        by (simp add: bs v_def)
      have pend: "pending input' = drop (4 * (m1 + m')) (pending input)"
        by (simp add: p' p1 add_mult_distrib2 add.commute)
      from a1 a' k1(1) used have acc: "k + 32 * (m1 + m') = used + k'"
        by simp
      from lt' a' a1 k1 m1 have lt: "0 < m1 + m' \<longrightarrow> k' < 32"
        by (cases "m' = 0") auto
      from l0 l1 res emit len' r' pend acc lt show ?thesis
        by (intro exI [of _ iov'] exI [of _ input'] exI [of _ "m1 + m'"] exI [of _ k'])
           (simp add: bs Suc)
    next
      case False
      with walk node obtain used' where
        w': "huff_walk tree c bits (Suc n) = Some (bs, used')" and used: "used = Suc used'"
        by (auto split: if_splits option.splits)
      from step False
      have l1: "huff_loop callback_mem input1 iov out tree word1 (mask_of k1) node sz
                  = huff_loop callback_mem input1 iov out tree word1 (mask_of (k1 - 1)) c
                      (Suc n)"
        by (simp add: Suc)
      from Cons.prems(6) Suc
      have inv1: "Suc n = 0 \<or> valid_iter iov out \<and> Suc n \<le> capacity iov - offset iov out"
        by simp
      from Cons.IH [OF w' bits k1' r1 Cons.prems(5) inv1]
      obtain iov' input' m' k' where
        res: "huff_loop callback_mem input1 iov out tree word1 (mask_of (k1 - 1)) c (Suc n)
                = (Success, iov', input')"
        and em': "emitted iov out bs iov'" and len': "length bs = Suc n"
        and r': "ready input'" and p': "pending input' = drop (4 * m') (pending input1)"
        and a': "k1 - 1 + 32 * m' = used' + k'" and lt': "0 < m' \<longrightarrow> k' < 32"
        by blast
      have pend: "pending input' = drop (4 * (m1 + m')) (pending input)"
        by (simp add: p' p1 add_mult_distrib2 add.commute)
      from a1 a' k1(1) used have acc: "k + 32 * (m1 + m') = used + k'"
        by simp
      from lt' a' a1 k1 m1 have lt: "0 < m1 + m' \<longrightarrow> k' < 32"
        by (cases "m' = 0") auto
      from l0 l1 res em' len' r' pend acc lt show ?thesis
        by (intro exI [of _ iov'] exI [of _ input'] exI [of _ "m1 + m'"] exI [of _ k'])
           (simp add: Suc)
    qed
  qed
qed

lemma iov_begin_valid:
  assumes "regions_ok iov" and "iov \<noteq> []"
  shows "valid_iter iov (iov_begin iov (length iov))"
    and "offset iov (iov_begin iov (length iov)) = 0"
proof -
  from assms(2) obtain r rs where iov: "iov = r # rs"
    by (cases iov) simp_all
  with assms(1) show "valid_iter iov (iov_begin iov (length iov))"
    by (simp add: valid_iter_def iov_begin_def regions_ok_def)
  show "offset iov (iov_begin iov (length iov)) = 0"
    by (simp add: offset_def iov_begin_def)
qed

lemma huff_tree_stored:
  assumes "length tree0 = 512"
  shows "store_at (store_at tree0 0 [n]) 1 tbl = n # tbl @ drop (length tbl + 1) tree0"
    and "store_at tree0 0 [n] ! 0 = n"
  using assms by (simp_all add: store_at_def)

text \<open>
  C8 (\<^verbatim>\<open>huff_decode\<close>). The input holds the tree-size byte \<open>n\<close>, the \<open>2 * (n + 1) - 1\<close> bytes
  \<open>tbl\<close> of the tree table and the payload. \<open>huff_walk\<close> is the decoding as the
  specification words it: over the bits of the payload, taken in words of 4 bytes assembled
  little-endian and most significant bit first (\<open>huff_bits\<close>), from the root at index 1 a bit
  selects the child at \<open>(node & ~1) + 2 * (tree[node] & 0x1F) + 2\<close>, plus one for a 1 bit;
  when the flag of that side is set (0x80 for a 0 bit, 0x40 for a 1 bit) the byte of the child,
  masked to 8 bits, is emitted and the walk restarts at the root, otherwise the child becomes
  the node; it ends when \<open>sz\<close> bytes are emitted. Whenever that walk yields the bytes \<open>bs\<close>
  from \<open>used\<close> bits, \<^verbatim>\<open>huff_decode\<close> over an input that does not fail returns true, the tree
  bytes are all read before the first output byte is written (the table walked is the one read
  from the input), the output holds exactly \<open>bs\<close>, \<open>sz\<close> bytes, from its start on with the rest
  of it unchanged, and the payload is consumed in whole words of 4 bytes, as many as hold the
  \<open>used\<close> bits and no more.
\<close>

theorem huff_decode_refines:
  assumes "ready input" and "regions_ok iov" and "iov \<noteq> []" and "sz \<le> capacity iov"
    and "length tree0 = 512"
    and "pending input = n # tbl @ payload" and "length tbl = 2 * (unat n + 1) - 1"
    and "huff_walk (n # tbl @ drop (length tbl + 1) tree0) 1 (huff_bits payload) sz
           = Some (bs, used)"
  shows "\<exists>iov' input' m.
           huff_decode callback_mem input iov sz (Some tree0) = (Success, iov', input')
           \<and> concat iov' = bs @ drop sz (concat iov) \<and> map length iov' = map length iov
           \<and> length bs = sz
           \<and> pending input' = drop (4 * m) payload \<and> used \<le> 32 * m \<and> 32 * m < used + 32"
proof -
  define tree where "tree = n # tbl @ drop (length tbl + 1) tree0"
  define out where "out = iov_begin iov (length iov)"
  from assms(6) have "1 \<le> length (pending input)" by simp
  from BufferRead_ready [OF assms(1) this] assms(6) obtain input1 where
    rd1: "Tex3DS_BufferRead callback_mem input 1 = (True, [n], input1)"
    and r1: "ready input1" and p1: "pending input1 = tbl @ payload"
    by auto
  from p1 have "length tbl \<le> length (pending input1)" by simp
  from BufferRead_ready [OF r1 this] p1 obtain input2 where
    rd2: "Tex3DS_BufferRead callback_mem input1 (length tbl) = (True, tbl, input2)"
    and r2: "ready input2" and p2: "pending input2 = payload"
    by auto
  have cnt: "(unat (store_at tree0 0 [n] ! 0) + 1) * 2 - 1 = length tbl"
    by (simp add: huff_tree_stored(2) [OF assms(5)] assms(7))
  have dec: "huff_decode callback_mem input iov sz (Some tree0)
               = huff_loop callback_mem input2 iov out tree 0 0 1 sz"
    unfolding huff_decode_def Let_def
    by (simp only: option.case rd1 prod.case not_True_eq_False if_False cnt rd2
          huff_tree_stored(1) [OF assms(5)] tree_def out_def)
  have bits: "huff_bits payload = window 0 0 @ huff_bits (pending input2)"
    by (simp add: window_0 p2)
  have valid: "valid_iter iov out" and off: "offset iov out = 0"
    unfolding out_def by (rule iov_begin_valid [OF assms(2,3)])+
  with assms(4) have inv: "sz = 0 \<or> valid_iter iov out \<and> sz \<le> capacity iov - offset iov out"
    by simp
  have m0: "mask_of 0 = 0" by (simp add: mask_of_def)
  from huff_loop_walk [OF assms(8) [folded tree_def] bits _ r2 assms(2) inv]
  obtain iov' input' m k' where
    res: "huff_loop callback_mem input2 iov out tree 0 0 1 sz = (Success, iov', input')"
    and em: "emitted iov out bs iov'" and len: "length bs = sz"
    and p': "pending input' = drop (4 * m) payload"
    and acc: "32 * m = used + k'" and lt: "0 < m \<longrightarrow> k' < 32"
    by (auto simp: m0 p2)
  from em off len have "concat iov' = bs @ drop sz (concat iov)"
    and "map length iov' = map length iov"
    by (simp_all add: emitted_def)
  moreover from acc lt have "used \<le> 32 * m" and "32 * m < used + 32"
    by (cases "m = 0"; simp)+
  ultimately show ?thesis
    using dec res len p'
    by (intro exI [of _ iov'] exI [of _ input'] exI [of _ m]) simp
qed

lemma huff_walk_pos:
  "0 < sz \<Longrightarrow> huff_walk tree node (b # bits) sz =
     (if \<not> node < length tree then None
      else
        let child = 2 * (node div 2) + 2 * unat (tree ! node AND 0x1F) + 2 + (if b then 1 else 0)
        in if tree ! node AND (if b then 0x40 else 0x80) \<noteq> 0 then
             if \<not> child < length tree then None
             else (case huff_walk tree 1 bits (sz - 1) of
                     None \<Rightarrow> None
                   | Some (bs, used) \<Rightarrow> Some ((tree ! child AND 0xFF) # bs, Suc used))
           else (case huff_walk tree child bits sz of
                   None \<Rightarrow> None
                 | Some (bs, used) \<Rightarrow> Some (bs, Suc used)))"
  by (cases sz) simp_all

lemma window_32: "window w 32 = bit w 31 # bit w 30 # window w 30"
  using window_Suc [of w 31] window_Suc [of w 30] by simp

theorem huff_decode_refines_witness:
  "\<exists>iov' input'.
     huff_decode callback_mem
       (\<lparr>data = [0, 0, 0, 0], limit = 4, bsize = 0, bpos = 0, total = 0\<rparr>,
        ([0x01, 0xC0, 0x41, 0x42, 0x00, 0x00, 0x00, 0x40], []))
       [[0, 0], [0]] 2 (Some (replicate 512 0))
     = (Success, iov', input')
     \<and> concat iov' = [0x41, 0x42, 0] \<and> map length iov' = [2, 1] \<and> pending input' = []"
proof -
  let ?input = "(\<lparr>data = [0, 0, 0, 0], limit = 4, bsize = 0, bpos = 0, total = 0\<rparr>,
                 ([0x01, 0xC0, 0x41, 0x42, 0x00, 0x00, 0x00, 0x40], []))"
  let ?iov = "[[0, 0], [0]] :: Tex3DS_IOVec list"
  have h1: "ready ?input"
    by (simp add: ready_def wf_buffer_def)
  have h2: "regions_ok ?iov" "?iov \<noteq> []" "2 \<le> capacity ?iov"
    by (simp_all add: regions_ok_def capacity_def)
  have h5: "length (replicate 512 (0::byte)) = 512"
    by simp
  have h6: "pending ?input = 0x01 # [0xC0, 0x41, 0x42] @ [0x00, 0x00, 0x00, 0x40]"
    by (simp add: pending_def resident_def bytes_at_def)
  have h7: "length [0xC0, 0x41, 0x42 :: byte] = 2 * (unat (0x01 :: byte) + 1) - 1"
    by simp
  have w: "le_word 0x00 0x00 0x00 0x40 = 0x40000000"
    by (simp add: le_word_def)
  have bits: "huff_bits [0x00, 0x00, 0x00, 0x40]
                = False # True # window (0x40000000 :: 32 word) 30"
    by (simp add: w window_32)
  have tree: "0x01 # [0xC0, 0x41, 0x42] @ drop (length [0xC0, 0x41, 0x42 :: byte] + 1)
                (replicate 512 0) = [0x01, 0xC0, 0x41, 0x42 :: byte] @ replicate 508 0"
    by simp
  have h8: "huff_walk (0x01 # [0xC0, 0x41, 0x42] @ drop (length [0xC0, 0x41, 0x42 :: byte] + 1)
                         (replicate 512 0)) 1 (huff_bits [0x00, 0x00, 0x00, 0x40]) 2
              = Some ([0x41, 0x42], 2)"
    unfolding bits tree by (simp add: huff_walk_pos Let_def)
  from huff_decode_refines [OF h1 h2 h5 h6 h7 h8]
  obtain iov' input' m where
    res: "huff_decode callback_mem ?input ?iov 2 (Some (replicate 512 0))
            = (Success, iov', input')"
    and out: "concat iov' = [0x41, 0x42] @ drop 2 (concat ?iov)"
    and sizes: "map length iov' = map length ?iov"
    and pend: "pending input' = drop (4 * m) [0x00, 0x00, 0x00, 0x40]"
    and m: "2 \<le> 32 * m" "32 * m < 2 + 32"
    by blast
  from m have "m = 1" by simp
  with pend have "pending input' = []" by simp
  moreover from out have "concat iov' = [0x41, 0x42, 0]" by simp
  moreover from sizes have "map length iov' = [2, 1]" by simp
  ultimately show ?thesis
    using res by (intro exI [of _ iov'] exI [of _ input']) simp
qed

end
